theory Spec2Isabelle
  imports Complex_Main "HOL-Library.Signed_Division"
begin

section \<open>ZRacer: data model\<close>

text \<open>
  The program is \<^verbatim>\<open>zracer.cpp\<close>. C++ \<^verbatim>\<open>int\<close> values are modelled as unbounded
  \<^typ>\<open>int\<close> (no value of the game comes near the range of a 32-bit integer except the
  constant \<^verbatim>\<open>INF\<close>, here \<open>INFINITY\<close>, which is only ever added to a small quotient). The C++ operators
  \<^verbatim>\<open>/\<close> and \<^verbatim>\<open>%\<close> truncate towards zero and are written \<open>sdiv\<close> and \<open>smod\<close>.
  Every behaviour that C++ leaves undefined or that ends the process is a value of
  \<open>error\<close>.
\<close>

datatype error =
    AssertionFailed
  | LengthError
  | OutOfBounds string
  | NotANumber
  | DivisionByZero
  | Overflow

text \<open>
  \<open>AssertionFailed\<close>: an \<^verbatim>\<open>assert\<close> of the program does not hold.
  \<open>LengthError\<close>: \<^verbatim>\<open>vector::resize\<close> with a negative size.
  \<open>OutOfBounds f\<close>: function \<open>f\<close> indexes a vector or an array outside its range.
  \<open>NotANumber\<close>: the quotient 0.0/0 is converted to \<^verbatim>\<open>int\<close>.
  \<open>DivisionByZero\<close>: integer \<^verbatim>\<open>/\<close> or \<^verbatim>\<open>%\<close> by zero.
  \<open>Overflow\<close>: the result of an operation on \<^verbatim>\<open>int\<close> is not a value of \<^verbatim>\<open>int\<close>.
\<close>

text \<open>
  An \<^verbatim>\<open>int\<close> has 32 bits. The settings and the positions are integers here. Where the
  program multiplies or adds settings that the user or the terminal gives (the initial
  borders of a track, the minimal width that the game derives), the result is tested for
  its range. The rows, the columns and the times of a race are not: they lie between
  \<open>-INF\<close> and the sizes of the track and of the terminal, and change by one at a time.
\<close>

definition INT_MAX :: int where
  "INT_MAX = 2147483647"

definition INT_MIN :: int where
  "INT_MIN = - 2147483648"

definition int32 :: "int \<Rightarrow> bool" where
  "int32 v \<longleftrightarrow> INT_MIN \<le> v \<and> v \<le> INT_MAX"

text \<open>The fields of \<^verbatim>\<open>struct _settings\<close> that the race itself reads.\<close>

record settings =
  vertical_split :: bool
  similar_track :: bool
  shared_track :: bool
  race_length :: int
  race_width :: int
  minimal_width :: int
  players :: int
  character :: char
  car_size :: int
  speed_base :: int
  rock_chance :: real
  turn_chance :: real
  controls :: "int list list"

text \<open>
  The settings after \<^verbatim>\<open>settings.reset()\<close>. The codes of the arrow keys are those of
  the curses library.
\<close>

definition KEY_DOWN :: int where "KEY_DOWN = 258"
definition KEY_UP :: int where "KEY_UP = 259"
definition KEY_LEFT :: int where "KEY_LEFT = 260"
definition KEY_RIGHT :: int where "KEY_RIGHT = 261"

definition reset :: settings where
  "reset = \<lparr>vertical_split = True, similar_track = True, shared_track = True,
     race_length = 500, race_width = 0, minimal_width = 0, players = 1,
     character = CHR ''^'', car_size = 10, speed_base = 5,
     rock_chance = 25 / 1000, turn_chance = 125 / 1000,
     controls = [KEY_UP, KEY_DOWN, KEY_LEFT, KEY_RIGHT] # [119, 115, 97, 100] # []\<rparr>"

text \<open>
  \<^verbatim>\<open>class car_image\<close>: the bitmap \<^verbatim>\<open>storage\<close>, an array indexed by (row, column),
  the list \<^verbatim>\<open>dots\<close> of the pixels in use as pairs (row, column), and \<^verbatim>\<open>size\<close>. The
  array is a function of the index; every access checks the index against the bounds of
  the array (\<open>in_storage\<close> below).
\<close>

record car_image =
  storage :: "int \<times> int \<Rightarrow> bool"
  dots :: "(int \<times> int) list"
  csize :: int

text \<open>\<^verbatim>\<open>track::circuit\<close>: a vector of rows, each a vector of characters.\<close>

type_synonym track = "char list list"

subsection \<open>Cells of the circuit\<close>

definition in_circuit :: "track \<Rightarrow> int \<Rightarrow> int \<Rightarrow> bool" where
  "in_circuit c i j \<longleftrightarrow>
     0 \<le> i \<and> i < int (length c) \<and> 0 \<le> j \<and> j < int (length (c ! nat i))"

definition cell :: "track \<Rightarrow> int \<Rightarrow> int \<Rightarrow> char" where
  "cell c i j = c ! nat i ! nat j"

definition put :: "track \<Rightarrow> int \<Rightarrow> int \<Rightarrow> char \<Rightarrow> track" where
  "put c i j v = c[nat i := (c ! nat i)[nat j := v]]"

subsection \<open>\<^verbatim>\<open>track::taken\<close>, \<^verbatim>\<open>track::mark\<close>, \<^verbatim>\<open>track::unmark\<close>\<close>

definition track_taken :: "track \<Rightarrow> int \<Rightarrow> int \<Rightarrow> error + bool" where
  "track_taken c y x =
     (if in_circuit c y x then Inr (cell c y x \<noteq> CHR '' '')
      else Inl (OutOfBounds ''track::taken''))"

text \<open>The loop of \<^verbatim>\<open>track::mark\<close> over the dots, in the order of the vector.\<close>

fun mark_dots :: "settings \<Rightarrow> track \<Rightarrow> int \<Rightarrow> int \<Rightarrow> (int \<times> int) list \<Rightarrow> error + track" where
  "mark_dots cfg c y x [] = Inr c"
| "mark_dots cfg c y x (d # ds) =
     (if in_circuit c (y + fst d) (x + snd d)
      then mark_dots cfg
             (if cell c (y + fst d) (x + snd d) = CHR '' ''
              then put c (y + fst d) (x + snd d) (character cfg) else c)
             y x ds
      else Inl (OutOfBounds ''track::mark''))"

definition track_mark :: "settings \<Rightarrow> track \<Rightarrow> int \<Rightarrow> int \<Rightarrow> car_image \<Rightarrow> error + track" where
  "track_mark cfg c y x img = mark_dots cfg c y x (dots img)"

fun unmark_dots :: "settings \<Rightarrow> track \<Rightarrow> int \<Rightarrow> int \<Rightarrow> (int \<times> int) list \<Rightarrow> error + track" where
  "unmark_dots cfg c y x [] = Inr c"
| "unmark_dots cfg c y x (d # ds) =
     (if in_circuit c (y + fst d) (x + snd d)
      then unmark_dots cfg
             (if cell c (y + fst d) (x + snd d) = character cfg
              then put c (y + fst d) (x + snd d) (CHR '' '') else c)
             y x ds
      else Inl (OutOfBounds ''track::unmark''))"

definition track_unmark :: "settings \<Rightarrow> track \<Rightarrow> int \<Rightarrow> int \<Rightarrow> car_image \<Rightarrow> error + track" where
  "track_unmark cfg c y x img = unmark_dots cfg c y x (dots img)"

text \<open>The cells a car covers when its upper left corner is at \<open>(y, x)\<close>.\<close>

definition footprint :: "int \<Rightarrow> int \<Rightarrow> (int \<times> int) list \<Rightarrow> (int \<times> int) list" where
  "footprint y x ds = map (\<lambda>d. (y + fst d, x + snd d)) ds"

definition fits :: "track \<Rightarrow> (int \<times> int) list \<Rightarrow> bool" where
  "fits c ps = list_all (\<lambda>p. in_circuit c (fst p) (snd p)) ps"

definition same_shape :: "track \<Rightarrow> track \<Rightarrow> bool" where
  "same_shape c c' \<longleftrightarrow> map length c' = map length c"

subsection \<open>Sequencing of fallible steps\<close>

definition and_then :: "error + 'a \<Rightarrow> ('a \<Rightarrow> error + 'b) \<Rightarrow> error + 'b" where
  "and_then m f = (case m of Inl e \<Rightarrow> Inl e | Inr v \<Rightarrow> f v)"

fun for_each :: "'i list \<Rightarrow> ('i \<Rightarrow> 's \<Rightarrow> error + 's) \<Rightarrow> 's \<Rightarrow> error + 's" where
  "for_each [] f s = Inr s"
| "for_each (i # is) f s = (case f i s of Inl e \<Rightarrow> Inl e | Inr s' \<Rightarrow> for_each is f s')"

definition put_checked :: "string \<Rightarrow> track \<Rightarrow> int \<Rightarrow> int \<Rightarrow> char \<Rightarrow> error + track" where
  "put_checked f c i j v = (if in_circuit c i j then Inr (put c i j v) else Inl (OutOfBounds f))"

section \<open>The sprite: \<^verbatim>\<open>car_image\<close>\<close>

definition MAX_CAR_SIZE :: int where
  "MAX_CAR_SIZE = 20"

text \<open>
  The array \<^verbatim>\<open>storage\<close> has \<^verbatim>\<open>MAX_CAR_SIZE+1\<close> rows and columns. C++ leaves it
  uninitialised and \<^verbatim>\<open>_clear\<close> resets the first \<^verbatim>\<open>size\<close> rows and columns only; no
  function of the program reads a cell outside that square, so the model starts from an
  array that is false everywhere.
\<close>

definition blank_storage :: "int \<times> int \<Rightarrow> bool" where
  "blank_storage = (\<lambda>p. False)"

definition in_storage :: "int \<Rightarrow> int \<Rightarrow> bool" where
  "in_storage i j \<longleftrightarrow> 0 \<le> i \<and> i \<le> MAX_CAR_SIZE \<and> 0 \<le> j \<and> j \<le> MAX_CAR_SIZE"

text \<open>
  \<^verbatim>\<open>(int)(v + 0.5)\<close>: the conversion to \<^verbatim>\<open>int\<close> drops the fraction, towards zero.
\<close>

definition to_int :: "real \<Rightarrow> int" where
  "to_int q = (if 0 \<le> q then \<lfloor>q\<rfloor> else - \<lfloor>- q\<rfloor>)"

text \<open>
  The row \<^verbatim>\<open>y1 + (int)((float)(y2-y1)*(i-x1)/(x2-x1)+0.5)\<close> of \<^verbatim>\<open>_line\<close>, computed
  exactly. For coordinates of a sprite (absolute value at most \<^verbatim>\<open>MAX_CAR_SIZE\<close>) the
  single-precision product is exact and the quotient is off by less than \<open>2\<^sup>-\<^sup>2\<^sup>0\<close>, while
  a quotient that is not itself a multiple of one half lies at least \<open>1/40\<close> away from the
  next one, and multiples of one half are floats: the machine value truncates to the same
  integer as the exact one.
\<close>

definition line_row :: "int \<Rightarrow> int \<Rightarrow> int \<Rightarrow> int \<Rightarrow> int \<Rightarrow> int" where
  "line_row y1 x1 y2 x2 i =
     y1 + to_int (of_int (y2 - y1) * of_int (i - x1) / of_int (x2 - x1) + 1 / 2)"

text \<open>
  The \<^verbatim>\<open>for\<close> loop of \<^verbatim>\<open>_line\<close>, from column \<open>i\<close> on. With \<open>x1 = x2\<close> the quotient is
  \<open>0.0/0\<close>, not a number, and its conversion to \<^verbatim>\<open>int\<close> is undefined.
\<close>

function line_loop :: "car_image \<Rightarrow> int \<Rightarrow> int \<Rightarrow> int \<Rightarrow> int \<Rightarrow> int \<Rightarrow> error + car_image" where
  "line_loop img y1 x1 y2 x2 i =
     (if i \<le> x2 then
        (if x2 = x1 then Inl NotANumber
         else if in_storage (line_row y1 x1 y2 x2 i) i
         then line_loop
                (img\<lparr>storage := (storage img)((line_row y1 x1 y2 x2 i, i) := True),
                     dots := dots img @ [(line_row y1 x1 y2 x2 i, i)]\<rparr>)
                y1 x1 y2 x2 (i + 1)
         else Inl (OutOfBounds ''car_image::_line''))
      else Inr img)"
  by pat_completeness auto
termination
  by (relation "measure (\<lambda>(img, y1, x1, y2, x2, i). nat (x2 + 1 - i))") auto

text \<open>\<^verbatim>\<open>car_image::_line\<close>: the points are swapped when given the other way round.\<close>

definition car_line :: "car_image \<Rightarrow> int \<Rightarrow> int \<Rightarrow> int \<Rightarrow> int \<Rightarrow> error + car_image" where
  "car_line img y1 x1 y2 x2 =
     (if x2 < x1 then line_loop img y2 x2 y1 x1 x2 else line_loop img y1 x1 y2 x2 x1)"

text \<open>\<^verbatim>\<open>car_image::_clear\<close> writes \<^verbatim>\<open>storage[i][j]\<close> for all \<open>i, j < size\<close>.\<close>

definition car_clear :: "car_image \<Rightarrow> error + car_image" where
  "car_clear img =
     (if csize img \<le> MAX_CAR_SIZE + 1
      then Inr (img\<lparr>storage :=
             (\<lambda>p. if 0 \<le> fst p \<and> fst p < csize img \<and> 0 \<le> snd p \<and> snd p < csize img
                  then False else storage img p)\<rparr>)
      else Inl (OutOfBounds ''car_image::_clear''))"

text \<open>The constructor \<^verbatim>\<open>car_image::car_image\<close>: four lines between the scaled key points.\<close>

definition car_image_ctor :: "settings \<Rightarrow> error + car_image" where
  "car_image_ctor cfg =
     (let n = car_size cfg - 1 in
      and_then (car_clear \<lparr>storage = blank_storage, dots = [], csize = car_size cfg\<rparr>) (\<lambda>a.
      and_then (car_line a 0 0 ((1 * n) sdiv 4) ((4 * n) sdiv 4)) (\<lambda>b.
      and_then (car_line b ((1 * n) sdiv 4) ((4 * n) sdiv 4) ((2 * n) sdiv 4) 0) (\<lambda>c.
      and_then (car_line c ((2 * n) sdiv 4) 0 ((3 * n) sdiv 4) ((4 * n) sdiv 4)) (\<lambda>d.
      car_line d ((3 * n) sdiv 4) ((4 * n) sdiv 4) ((4 * n) sdiv 4) 0)))))"

definition collision_check :: "car_image \<Rightarrow> int \<Rightarrow> int \<Rightarrow> error + bool" where
  "collision_check img y x =
     (if in_storage y x then Inr (storage img (y, x))
      else Inl (OutOfBounds ''car_image::collision_check''))"

section \<open>The track generator: \<^verbatim>\<open>track::track\<close>\<close>

text \<open>
  The random number generator of the C library is a source of the numbers that the
  successive calls of \<^verbatim>\<open>rand()\<close> return: call number \<open>n\<close> returns \<open>g n\<close>, a number
  between 0 and \<^verbatim>\<open>RAND_MAX\<close>. The value of \<^verbatim>\<open>RAND_MAX\<close> is that of the GNU C library.
  \<^verbatim>\<open>drand()\<close> is \<^verbatim>\<open>(double)rand()/RAND_MAX\<close>; it is compared with a chance as an exact
  quotient.
\<close>

type_synonym rng = "nat \<Rightarrow> nat"

definition RAND_MAX :: nat where
  "RAND_MAX = 2147483647"

definition drand :: "rng \<Rightarrow> nat \<Rightarrow> real" where
  "drand g n = real (g n) / real RAND_MAX"

text \<open>
  The local variables of the constructor: the circuit, \<^verbatim>\<open>borders\<close>,
  \<^verbatim>\<open>borders_directions\<close> and the number \<open>seed\<close> of calls of \<^verbatim>\<open>rand()\<close> made so far.
  The field \<open>capped\<close> is not in the program: it records the rows on which one of the two
  \<^verbatim>\<open>while\<close> loops stopped because \<^verbatim>\<open>tries\<close> had reached 5. Nothing is computed from it.
\<close>

record gen =
  circuit :: track
  borders0 :: int
  borders1 :: int
  directions0 :: int
  directions1 :: int
  seed :: nat
  capped :: "int list"

text \<open>
  The loop \<^verbatim>\<open>while(tries++<5 && (drand()<turn_chance || border+direction == edge))
  direction = rand()%3-1;\<close> from the state \<open>(tries, d, n)\<close>. It returns the direction,
  the number of calls of \<^verbatim>\<open>rand()\<close> and the final value of \<^verbatim>\<open>tries\<close>, which is 6
  exactly when the loop stopped on \<^verbatim>\<open>tries++<5\<close>.
\<close>

function turn_loop :: "settings \<Rightarrow> rng \<Rightarrow> int \<Rightarrow> int \<Rightarrow> nat \<Rightarrow> int \<Rightarrow> nat \<Rightarrow> int \<times> nat \<times> nat" where
  "turn_loop cfg g edge b tries d n =
     (if tries < 5 then
        (if drand g n < turn_chance cfg \<or> b + d = edge
         then turn_loop cfg g edge b (Suc tries) (int (g (Suc n)) smod 3 - 1) (n + 2)
         else (d, n + 1, Suc tries))
      else (d, n, Suc tries))"
  by pat_completeness auto
termination
  by (relation "measure (\<lambda>(cfg, g, edge, b, tries, d, n). 5 - tries)") auto

text \<open>The \<^verbatim>\<open>switch\<close> that draws a kerb: a character that depends on the direction.\<close>

definition draw_kerb :: "track \<Rightarrow> int \<Rightarrow> int \<Rightarrow> int \<Rightarrow> error + track" where
  "draw_kerb c i b d =
     (if d = 0 then put_checked ''track::track'' c i b (CHR ''|'')
      else if d = 1 then put_checked ''track::track'' c i b (CHR ''/'')
      else if d = - 1 then put_checked ''track::track'' c i b (CHR 0x5C)
      else Inr c)"

definition digits :: string where
  "digits = ''0123456789''"

text \<open>The rock: \<^verbatim>\<open>if(drand()<rock_chance) circuit[i][rand()%race_width]='*';\<close>\<close>

definition throw_rock :: "settings \<Rightarrow> rng \<Rightarrow> int \<Rightarrow> track \<Rightarrow> nat \<Rightarrow> error + track \<times> nat" where
  "throw_rock cfg g i c n =
     (if drand g n < rock_chance cfg
      then (if race_width cfg = 0 then Inl DivisionByZero
            else and_then
                   (put_checked ''track::track'' c i (int (g (n + 1)) smod race_width cfg) (CHR ''*''))
                   (\<lambda>c'. Inr (c', n + 2)))
      else Inr (c, n + 1))"

text \<open>
  The turn of the left kerb (edge 0, widening direction -1) and of the right kerb (edge
  \<^verbatim>\<open>race_width\<close>, widening direction 1): the loop, then the two \<^verbatim>\<open>if\<close>. \<open>b\<close> is the
  border that turns, \<open>wd\<close> the present width \<^verbatim>\<open>borders[1]-borders[0]\<close>.
\<close>

definition turn_kerb :: "settings \<Rightarrow> rng \<Rightarrow> int \<Rightarrow> int \<Rightarrow> int \<Rightarrow> int \<Rightarrow> int \<Rightarrow> nat \<Rightarrow> int \<times> nat \<times> nat" where
  "turn_kerb cfg g edge wider wd b d n =
     (let (da, n', t) = turn_loop cfg g edge b 0 d n;
          db = (if wd < minimal_width cfg then wider else da)
      in (if b + db = edge then 0 else db, n', t))"

text \<open>The body of the \<^verbatim>\<open>for\<close> loop of the constructor, for line \<open>i\<close>.\<close>

definition gen_line :: "settings \<Rightarrow> rng \<Rightarrow> int \<Rightarrow> gen \<Rightarrow> error + gen" where
  "gen_line cfg g i s =
     (let c0 = (circuit s)[nat i := replicate (length (circuit s ! nat i)) (CHR '' '')];
          b0 = borders0 s + directions0 s;
          b1 = borders1 s + directions1 s
      in
      and_then (put_checked ''track::track'' c0 i 0 (digits ! nat (i smod 10))) (\<lambda>c1.
      and_then (throw_rock cfg g i c1 (seed s)) (\<lambda>(c2, n1).
      and_then (draw_kerb c2 i b0 (directions0 s)) (\<lambda>c3.
      and_then (draw_kerb c3 i b1 (directions1 s)) (\<lambda>c4.
      let (d0, n2, t0) = turn_kerb cfg g 0 (- 1) (b1 - b0) b0 (directions0 s) n1;
          (d1, n3, t1) = turn_kerb cfg g (race_width cfg) 1 (b1 - b0) b1 (directions1 s) n2
      in Inr \<lparr>circuit = c4, borders0 = b0, borders1 = b1,
               directions0 = d0, directions1 = d1, seed = n3,
               capped = (if t0 = 6 \<or> t1 = 6 then capped s @ [i] else capped s)\<rparr>)))))"

text \<open>The lines are generated from the last one up to line 0, the finish.\<close>

function gen_lines :: "settings \<Rightarrow> rng \<Rightarrow> int \<Rightarrow> gen \<Rightarrow> error + gen" where
  "gen_lines cfg g i s =
     (if 0 \<le> i
      then (case gen_line cfg g i s of Inl e \<Rightarrow> Inl e | Inr s' \<Rightarrow> gen_lines cfg g (i - 1) s')
      else Inr s)"
  by pat_completeness auto
termination
  by (relation "measure (\<lambda>(cfg, g, i, s). nat (i + 1))") auto

text \<open>
  The constructor: the two \<^verbatim>\<open>resize\<close>, the \<^verbatim>\<open>assert\<close>, the initial borders and the
  loop. \<open>n\<close> is the number of calls of \<^verbatim>\<open>rand()\<close> made before. A resized vector of
  characters holds null characters. A negative size makes \<^verbatim>\<open>resize\<close> throw; the rows are
  resized only when there are rows. The \<^verbatim>\<open>assert\<close> is taken as compiled in (without
  \<^verbatim>\<open>NDEBUG\<close>). The initial borders are computed in \<^verbatim>\<open>int\<close>:
  \<^verbatim>\<open>race_width - minimal_width\<close>, \<^verbatim>\<open>race_width*3\<close> and \<^verbatim>\<open>race_width*3 + minimal_width\<close>
  overflow when they leave its range.
\<close>

definition generate :: "settings \<Rightarrow> rng \<Rightarrow> nat \<Rightarrow> error + gen" where
  "generate cfg g n =
     (if race_length cfg < 0 \<or> (0 < race_length cfg \<and> race_width cfg < 0) then Inl LengthError
      else if \<not> minimal_width cfg \<le> race_width cfg then Inl AssertionFailed
      else if \<not> (int32 (race_width cfg - minimal_width cfg) \<and> int32 (race_width cfg * 3) \<and>
                  int32 (race_width cfg * 3 + minimal_width cfg))
      then Inl Overflow
      else gen_lines cfg g (race_length cfg - 1)
             \<lparr>circuit = replicate (nat (race_length cfg)) (replicate (nat (race_width cfg)) (CHR 0x00)),
              borders0 = (race_width cfg - minimal_width cfg) sdiv 4,
              borders1 = (race_width cfg * 3 + minimal_width cfg) sdiv 4,
              directions0 = 0, directions1 = 0, seed = n, capped = []\<rparr>)"

definition track_ctor :: "settings \<Rightarrow> rng \<Rightarrow> nat \<Rightarrow> error + track" where
  "track_ctor cfg g n = and_then (generate cfg g n) (\<lambda>s. Inr (circuit s))"

text \<open>The columns of a line that hold a kerb.\<close>

definition is_kerb :: "char \<Rightarrow> bool" where
  "is_kerb v \<longleftrightarrow> v = CHR ''|'' \<or> v = CHR ''/'' \<or> v = CHR 0x5C"

definition kerbs :: "char list \<Rightarrow> nat list" where
  "kerbs row = filter (\<lambda>j. is_kerb (row ! j)) [0 ..< length row]"

text \<open>The characters that the constructor writes: blank, digit, rock and kerb.\<close>

definition terrain :: "char \<Rightarrow> bool" where
  "terrain v \<longleftrightarrow> v = CHR '' '' \<or> v = CHR ''*'' \<or> v \<in> set digits \<or> is_kerb v"


section \<open>The players: \<^verbatim>\<open>player_handler\<close>\<close>

text \<open>
  What a player draws on its window is kept as the list of the drawing calls made, the
  latest last: the track from a top line, the car or its explosion at a window position,
  and the refresh.
\<close>

datatype draw =
    Track_drawn int
  | Car_drawn int int
  | Car_exploded int int
  | Refreshed

text \<open>
  The fields of the class. \<open>course\<close> is the pointer to the track: the index of the track
  in the list of tracks of the game. \<open>screen\<close> is the window, as the drawing calls made on
  it, and \<open>win_height\<close> the height that \<^verbatim>\<open>getmaxyx(screen, ...)\<close> reports. The position
  \<^verbatim>\<open>(y, x)\<close> of the car is \<open>(pos_y, pos_x)\<close>.
\<close>

record player_handler =
  screen :: "draw list"
  win_height :: int
  course :: nat
  car :: car_image
  last_move :: int
  pos_y :: int
  pos_x :: int
  top_line :: int
  command_x :: int
  command_y :: int
  screen_height :: int
  keys :: "int list"

definition INFINITY :: int where
  "INFINITY = 123456789"

definition ACCELERATE :: int where "ACCELERATE = - 1"
definition BRAKE :: int where "BRAKE = 1"
definition LEFT :: int where "LEFT = - 1"
definition RIGHT :: int where "RIGHT = 1"
definition KEY_ESC :: int where "KEY_ESC = 27"

text \<open>
  The constructor \<^verbatim>\<open>player_handler::player_handler(position, racecourse)\<close>, on a
  terminal of \<open>rows\<close> lines and \<open>cols\<close> columns.
\<close>

definition player_handler_ctor ::
    "settings \<Rightarrow> int \<Rightarrow> int \<Rightarrow> int \<Rightarrow> nat \<Rightarrow> error + player_handler" where
  "player_handler_ctor cfg rows cols position racecourse =
     (if players cfg = 0 then Inl DivisionByZero else
      let width = (if vertical_split cfg then cols sdiv players cfg else cols);
          height = (if vertical_split cfg then rows else rows sdiv players cfg)
      in
      if \<not> race_width cfg \<le> width then Inl AssertionFailed
      else if \<not> (0 \<le> position \<and> nat position < length (controls cfg)) then
        Inl (OutOfBounds ''player_handler::player_handler'')
      else
      and_then (car_image_ctor cfg) (\<lambda>img.
      Inr \<lparr>screen = [], win_height = height, course = racecourse, car = img,
           last_move = - INFINITY,
           pos_y = race_length cfg - car_size cfg,
           pos_x = (if shared_track cfg
                    then (race_width cfg - (car_size cfg + 1) * (players cfg - 2 * position)) sdiv 2
                    else race_width cfg sdiv 2),
           top_line = race_length cfg - height,
           command_x = 0, command_y = 0, screen_height = rows,
           keys = controls cfg ! nat position\<rparr>))"

text \<open>\<^verbatim>\<open>player_handler::parse_input\<close>: four tests in a row.\<close>

definition parse_input :: "player_handler \<Rightarrow> int \<Rightarrow> player_handler" where
  "parse_input p pressed_key =
     (let p1 = (if pressed_key = keys p ! 0 then p\<lparr>command_y := ACCELERATE\<rparr> else p);
          p2 = (if pressed_key = keys p ! 1 then p1\<lparr>command_y := BRAKE\<rparr> else p1);
          p3 = (if pressed_key = keys p ! 2 then p2\<lparr>command_x := LEFT\<rparr> else p2)
      in if pressed_key = keys p ! 3 then p3\<lparr>command_x := RIGHT\<rparr> else p3)"

text \<open>
  \<^verbatim>\<open>track::display\<close> reads \<^verbatim>\<open>circuit[i][j]\<close> for every line \<open>i\<close> of the window, from
  \<open>upper\<close> on, and every column \<open>j\<close> below \<^verbatim>\<open>race_width\<close>.
\<close>

definition track_display :: "settings \<Rightarrow> track \<Rightarrow> int \<Rightarrow> int \<Rightarrow> error + draw" where
  "track_display cfg c height upper =
     (if list_all (\<lambda>i. list_all (\<lambda>j. in_circuit c i j) [0 .. race_width cfg - 1])
           [upper .. upper + height - 1]
      then Inr (Track_drawn upper)
      else Inl (OutOfBounds ''track::display''))"

text \<open>
  The two nested loops that check for collisions, over the cells \<open>(i, j)\<close> in their
  order: \<^verbatim>\<open>if(course->taken(i, j) && car->collision_check(i-y, j-x)) survive=false;\<close>
\<close>

fun collisions :: "track \<Rightarrow> car_image \<Rightarrow> int \<Rightarrow> int \<Rightarrow> (int \<times> int) list \<Rightarrow> bool \<Rightarrow> error + bool" where
  "collisions c img y x [] survive = Inr survive"
| "collisions c img y x (p # ps) survive =
     (case track_taken c (fst p) (snd p) of
        Inl e \<Rightarrow> Inl e
      | Inr False \<Rightarrow> collisions c img y x ps survive
      | Inr True \<Rightarrow>
          (case collision_check img (fst p - y) (snd p - x) of
             Inl e \<Rightarrow> Inl e
           | Inr hit \<Rightarrow> collisions c img y x ps (if hit then False else survive)))"

definition box :: "settings \<Rightarrow> int \<Rightarrow> int \<Rightarrow> (int \<times> int) list" where
  "box cfg y x =
     concat (map (\<lambda>i. map (\<lambda>j. (i, j)) [x .. x + car_size cfg - 1]) [y .. y + car_size cfg - 1])"

text \<open>The test of \<^verbatim>\<open>player_handler::tick\<close> that lets the car move.\<close>

definition may_move :: "settings \<Rightarrow> player_handler \<Rightarrow> int \<Rightarrow> bool" where
  "may_move cfg p t \<longleftrightarrow> last_move p + (pos_y p - top_line p) sdiv speed_base cfg < t"

text \<open>The move: the assignments up to the clamp of \<^verbatim>\<open>y\<close>.\<close>

definition move :: "settings \<Rightarrow> player_handler \<Rightarrow> int \<Rightarrow> player_handler" where
  "move cfg p t =
     (let upper = max 0 (top_line p - 1);
          y1 = pos_y p - 1 + command_y p
      in p\<lparr>last_move := t,
           top_line := upper,
           pos_x := pos_x p + command_x p,
           command_y := 0, command_x := 0,
           pos_y := max upper (min (upper + screen_height p - car_size cfg) y1)\<rparr>)"

text \<open>
  The rest of the body of the \<^verbatim>\<open>if\<close>, for the player \<open>q\<close> that has moved: the plain
  win, the display of the track, the check for collisions and the display of the car. The
  explosion draws with \<^verbatim>\<open>rand()\<close>; nothing else reads the random numbers after the
  tracks are built, so the calls are not counted.
\<close>

definition after_move :: "settings \<Rightarrow> track \<Rightarrow> player_handler \<Rightarrow> error + player_handler \<times> bool" where
  "after_move cfg c q =
     (if pos_y q \<le> 0 then Inr (q, False)
      else
        and_then (track_display cfg c (win_height q) (top_line q)) (\<lambda>shown.
        and_then (collisions c (car q) (pos_y q) (pos_x q) (box cfg (pos_y q) (pos_x q)) True)
          (\<lambda>survive.
        Inr (q\<lparr>screen := screen q @
                 [shown,
                  if survive then Car_drawn (pos_y q - top_line q) (pos_x q)
                  else Car_exploded (pos_y q - top_line q) (pos_x q),
                  Refreshed]\<rparr>, survive))))"

text \<open>
  \<^verbatim>\<open>player_handler::tick\<close> on the track \<open>c\<close> that \<^verbatim>\<open>course\<close> points to. The track is
  only read.
\<close>

definition player_tick :: "settings \<Rightarrow> track \<Rightarrow> player_handler \<Rightarrow> int \<Rightarrow> error + player_handler \<times> bool" where
  "player_tick cfg c p t =
     (if speed_base cfg = 0 then Inl DivisionByZero
      else if may_move cfg p t then after_move cfg c (move cfg p t)
      else Inr (p, True))"

section \<open>The race: \<^verbatim>\<open>game\<close>\<close>

text \<open>
  \<open>tracks\<close> holds the tracks that the players point to; in a shared race there is one,
  and every player points to it. \<open>handlers\<close> is the array \<^verbatim>\<open>players\<close> and \<open>clock\<close> the
  field \<^verbatim>\<open>time\<close>.
\<close>

record game =
  clock :: int
  handlers :: "player_handler list"
  alive :: "bool list"
  tracks :: "track list"

text \<open>The indices of the loops \<^verbatim>\<open>for(int i = 0; i<settings.players; i++)\<close>.\<close>

definition seats :: "settings \<Rightarrow> nat list" where
  "seats cfg = [0 ..< nat (players cfg)]"

definition seated :: "game \<Rightarrow> nat \<Rightarrow> bool" where
  "seated gm i \<longleftrightarrow> i < length (handlers gm) \<and> i < length (alive gm) \<and>
     course (handlers gm ! i) < length (tracks gm)"

text \<open>\<^verbatim>\<open>player_handler::mark_position\<close> and \<^verbatim>\<open>unmark_position\<close> of player \<open>i\<close>.\<close>

definition mark_position :: "settings \<Rightarrow> nat \<Rightarrow> game \<Rightarrow> error + game" where
  "mark_position cfg i gm =
     (if seated gm i then
        (let p = handlers gm ! i in
         and_then (track_mark cfg (tracks gm ! course p) (pos_y p) (pos_x p) (car p))
           (\<lambda>c. Inr (gm\<lparr>tracks := (tracks gm)[course p := c]\<rparr>)))
      else Inl (OutOfBounds ''game::tick''))"

definition unmark_position :: "settings \<Rightarrow> nat \<Rightarrow> game \<Rightarrow> error + game" where
  "unmark_position cfg i gm =
     (if seated gm i then
        (let p = handlers gm ! i in
         and_then (track_unmark cfg (tracks gm ! course p) (pos_y p) (pos_x p) (car p))
           (\<lambda>c. Inr (gm\<lparr>tracks := (tracks gm)[course p := c]\<rparr>)))
      else Inl (OutOfBounds ''game::tick''))"

text \<open>
  One key of the input loop: the escape key kills every player, and every key is passed
  to every player.
\<close>

definition press :: "settings \<Rightarrow> int \<Rightarrow> game \<Rightarrow> error + game" where
  "press cfg pressed_key gm =
     (if list_all (seated gm) (seats cfg) then
        Inr (gm\<lparr>alive := (if pressed_key = KEY_ESC
                            then map (\<lambda>i. if i < nat (players cfg) then False else alive gm ! i)
                                   [0 ..< length (alive gm)]
                            else alive gm),
                 handlers := map (\<lambda>i. if i < nat (players cfg)
                                       then parse_input (handlers gm ! i) pressed_key
                                       else handlers gm ! i)
                               [0 ..< length (handlers gm)]\<rparr>)
      else Inl (OutOfBounds ''game::tick''))"

text \<open>The first loop of a shared race: the position of every living player is marked.\<close>

definition mark_alive :: "settings \<Rightarrow> nat \<Rightarrow> game \<Rightarrow> error + game" where
  "mark_alive cfg i gm =
     (if seated gm i then (if alive gm ! i then mark_position cfg i gm else Inr gm)
      else Inl (OutOfBounds ''game::tick''))"

text \<open>
  The tick of player \<open>i\<close> and the assignment
  \<^verbatim>\<open>game_continues = (alive[i] = players[i]->tick(time)) || game_continues\<close>.
\<close>

definition tick_player :: "settings \<Rightarrow> nat \<Rightarrow> game \<times> bool \<Rightarrow> error + game \<times> bool" where
  "tick_player cfg i st =
     (let gm = fst st; p = handlers gm ! i in
      and_then (player_tick cfg (tracks gm ! course p) p (clock gm)) (\<lambda>(q, survive).
      Inr (gm\<lparr>handlers := (handlers gm)[i := q], alive := (alive gm)[i := survive]\<rparr>,
           survive \<or> snd st)))"

text \<open>The second loop: in a shared race the tick is between an unmark and a mark.\<close>

definition turn_of :: "settings \<Rightarrow> nat \<Rightarrow> game \<times> bool \<Rightarrow> error + game \<times> bool" where
  "turn_of cfg i st =
     (if seated (fst st) i then
        (if alive (fst st) ! i then
           (if shared_track cfg then
              and_then (unmark_position cfg i (fst st)) (\<lambda>g1.
              and_then (tick_player cfg i (g1, snd st)) (\<lambda>(g2, continues).
              and_then (mark_position cfg i g2) (\<lambda>g3. Inr (g3, continues))))
            else tick_player cfg i st)
         else Inr st)
      else Inl (OutOfBounds ''game::tick''))"

text \<open>
  \<^verbatim>\<open>game::tick\<close>, with the keys that wait in the buffer. The result is the game and
  \<^verbatim>\<open>game_continues\<close>; the message at the end of the race is not modelled.
\<close>

definition game_tick :: "settings \<Rightarrow> int list \<Rightarrow> game \<Rightarrow> error + game \<times> bool" where
  "game_tick cfg pressed gm =
     and_then (for_each pressed (press cfg) (gm\<lparr>clock := clock gm + 1\<rparr>)) (\<lambda>g1.
     and_then (if shared_track cfg then for_each (seats cfg) (mark_alive cfg) g1 else Inr g1) (\<lambda>g2.
     and_then (for_each (seats cfg) (turn_of cfg) (g2, False)) (\<lambda>(g3, continues).
     and_then (if shared_track cfg then for_each (seats cfg) (unmark_position cfg) g3 else Inr g3)
       (\<lambda>g4. Inr (g4, continues)))))"


section \<open>The constructor \<^verbatim>\<open>game::game\<close>\<close>

definition MAX_PLAYERS :: int where
  "MAX_PLAYERS = 2"

text \<open>
  The adjustment of the settings on a terminal of \<open>cols\<close> columns. The macro
  \<^verbatim>\<open>MINIMAL_WIDTH\<close> is \<^verbatim>\<open>min(players*car_size*2.5, (double)race_width-2)\<close>, converted to
  \<^verbatim>\<open>int\<close>: the product \<^verbatim>\<open>players*car_size\<close> is computed in \<^verbatim>\<open>int\<close>, the rest in
  \<^verbatim>\<open>double\<close>, and the conversion drops the fraction of a value in the range of \<^verbatim>\<open>int\<close>.
\<close>

definition adjust :: "settings \<Rightarrow> int \<Rightarrow> error + settings" where
  "adjust cfg cols =
     and_then
       (if race_width cfg = 0 then
          (if vertical_split cfg then
             (if players cfg = 0 then Inl DivisionByZero
              else Inr (cfg\<lparr>race_width := cols sdiv players cfg\<rparr>))
           else Inr (cfg\<lparr>race_width := cols\<rparr>))
        else Inr cfg)
       (\<lambda>cfg1. if minimal_width cfg1 = 0
                then (let m = min ((players cfg1 * car_size cfg1 * 5) sdiv 2) (race_width cfg1 - 2)
                      in if int32 (players cfg1 * car_size cfg1) \<and> int32 m
                         then Inr (cfg1\<lparr>minimal_width := m\<rparr>)
                         else Inl Overflow)
                else Inr cfg1)"

text \<open>One player more, on the track at index \<open>k\<close>.\<close>

definition seat_player :: "settings \<Rightarrow> int \<Rightarrow> int \<Rightarrow> nat \<Rightarrow> nat \<Rightarrow> game \<Rightarrow> error + game" where
  "seat_player cfg rows cols k i gm =
     (if int i < MAX_PLAYERS then
        and_then (player_handler_ctor cfg rows cols (int i) k)
          (\<lambda>p. Inr (gm\<lparr>handlers := handlers gm @ [p], alive := alive gm @ [True]\<rparr>))
      else Inl (OutOfBounds ''game::game''))"

text \<open>The players of a race with a track each: a new track, then the player on it.\<close>

fun seat_apart :: "settings \<Rightarrow> rng \<Rightarrow> int \<Rightarrow> int \<Rightarrow> nat list \<Rightarrow> nat \<Rightarrow> game \<Rightarrow> error + game" where
  "seat_apart cfg g rows cols [] n gm = Inr gm"
| "seat_apart cfg g rows cols (i # is) n gm =
     (case generate cfg g n of
        Inl e \<Rightarrow> Inl e
      | Inr s \<Rightarrow>
          (case seat_player cfg rows cols (length (tracks gm)) i
                  (gm\<lparr>tracks := tracks gm @ [circuit s]\<rparr>) of
             Inl e \<Rightarrow> Inl e
           | Inr gm' \<Rightarrow> seat_apart cfg g rows cols is (seed s) gm'))"

text \<open>
  The constructor, on a terminal of \<open>rows\<close> lines and \<open>cols\<close> columns, with the random
  numbers \<open>g\<close>. It returns the settings, which it adjusts, and the game. A shared race and
  a race on similar tracks both build one track, to which every player points.
\<close>

definition game_ctor :: "settings \<Rightarrow> int \<Rightarrow> int \<Rightarrow> rng \<Rightarrow> error + settings \<times> game" where
  "game_ctor cfg0 rows cols g =
     and_then (adjust cfg0 cols) (\<lambda>cfg.
     and_then
       (if shared_track cfg \<or> similar_track cfg then
          and_then (track_ctor cfg g 0) (\<lambda>c.
            for_each (seats cfg) (seat_player cfg rows cols 0)
              \<lparr>clock = 0, handlers = [], alive = [], tracks = [c]\<rparr>)
        else seat_apart cfg g rows cols (seats cfg) 0
               \<lparr>clock = 0, handlers = [], alive = [], tracks = []\<rparr>)
       (\<lambda>gm. Inr (cfg, gm)))"


section \<open>Invariants of the track generator\<close>

text \<open>
  The circuit after the two \<^verbatim>\<open>resize\<close>: \<^verbatim>\<open>race_length\<close> rows of \<^verbatim>\<open>race_width\<close>
  characters.
\<close>

definition rect :: "settings \<Rightarrow> track \<Rightarrow> bool" where
  "rect cfg c \<longleftrightarrow>
     length c = nat (race_length cfg) \<and> list_all (\<lambda>row. length row = nat (race_width cfg)) c"

text \<open>
  The state between two lines: both directions are -1, 0 or 1, the next left kerb is at
  column 1 at least, the next right kerb at column \<^verbatim>\<open>race_width\<close> - 1 at most, and the
  next road is at most 2 narrower than the minimal width.
\<close>

definition on_course :: "settings \<Rightarrow> gen \<Rightarrow> bool" where
  "on_course cfg s \<longleftrightarrow>
     directions0 s \<in> {- 1, 0, 1} \<and> directions1 s \<in> {- 1, 0, 1} \<and>
     1 \<le> borders0 s + directions0 s \<and>
     borders1 s + directions1 s \<le> race_width cfg - 1 \<and>
     minimal_width cfg - 2 \<le> (borders1 s + directions1 s) - (borders0 s + directions0 s)"

text \<open>
  A line with exactly two kerbs, the left one left of the right one, and a road at most 2
  narrower than \<open>m\<close>.
\<close>

definition two_kerbs :: "int \<Rightarrow> char list \<Rightarrow> bool" where
  "two_kerbs m row \<longleftrightarrow>
     length (kerbs row) = 2 \<and> kerbs row ! 0 < kerbs row ! 1 \<and>
     m - 2 \<le> int (kerbs row ! 1) - int (kerbs row ! 0)"


section \<open>Invariants of a shared race\<close>

text \<open>The cells under the car of a player.\<close>

definition spot :: "player_handler \<Rightarrow> (int \<times> int) list" where
  "spot p = footprint (pos_y p) (pos_x p) (dots (car p))"

text \<open>
  \<open>marked\<close>: every cell under the car of the player is on the track and is an obstacle
  (\<^verbatim>\<open>taken\<close> answers true). \<open>cleared\<close>: every cell under the car is on the track and
  does not hold the car character. \<open>unmarked\<close>: no cell of the track holds it.
\<close>

definition marked :: "track \<Rightarrow> player_handler \<Rightarrow> bool" where
  "marked c p \<longleftrightarrow>
     list_all (\<lambda>q. in_circuit c (fst q) (snd q) \<and> cell c (fst q) (snd q) \<noteq> CHR '' '') (spot p)"

definition cleared :: "settings \<Rightarrow> track \<Rightarrow> player_handler \<Rightarrow> bool" where
  "cleared cfg c p \<longleftrightarrow>
     list_all (\<lambda>q. in_circuit c (fst q) (snd q) \<and> cell c (fst q) (snd q) \<noteq> character cfg) (spot p)"

definition unmarked :: "settings \<Rightarrow> track \<Rightarrow> bool" where
  "unmarked cfg c \<longleftrightarrow> list_all (list_all (\<lambda>v. v \<noteq> character cfg)) c"

text \<open>
  The game as the constructor builds it for a shared race: one track, to which every
  player points, and as many players as the settings say.
\<close>

definition shared_game :: "settings \<Rightarrow> game \<Rightarrow> bool" where
  "shared_game cfg gm \<longleftrightarrow>
     length (tracks gm) = 1 \<and> length (handlers gm) = nat (players cfg) \<and>
     length (alive gm) = nat (players cfg) \<and> list_all (\<lambda>p. course p = 0) (handlers gm)"

text \<open>
  For the proofs: the track with every car character blanked, the cells that hold the car
  character, and the cells under the cars of all players.
\<close>

definition erase :: "settings \<Rightarrow> track \<Rightarrow> track" where
  "erase cfg c = map (map (\<lambda>v. if v = character cfg then CHR '' '' else v)) c"

definition glyphs :: "settings \<Rightarrow> track \<Rightarrow> (int \<times> int) set" where
  "glyphs cfg c = {(i, j). in_circuit c i j \<and> cell c i j = character cfg}"

definition spots :: "game \<Rightarrow> (int \<times> int) set" where
  "spots gm = (\<Union>j \<in> {..< length (handlers gm)}. set (spot (handlers gm ! j)))"

text \<open>
  What holds all through a tick of a shared race that starts on the unmarked track \<open>c0\<close>:
  the track is \<open>c0\<close> up to car characters on blank cells, and every car character is
  under the car of a player.
\<close>

definition reverting :: "settings \<Rightarrow> track \<Rightarrow> game \<Rightarrow> bool" where
  "reverting cfg c0 gm \<longleftrightarrow>
     shared_game cfg gm \<and> erase cfg (tracks gm ! 0) = c0 \<and>
     glyphs cfg (tracks gm ! 0) \<subseteq> spots gm"


section \<open>The rounding that the specification describes\<close>

text \<open>
  These two definitions follow the words of the specification, not the program: round
  half up, and the row \<open>y1 + round((y2-y1)*(i-x1)/(x2-x1))\<close> of a segment at column \<open>i\<close>.
  They are compared with \<open>line_row\<close> below.
\<close>

definition round_half_up :: "real \<Rightarrow> int" where
  "round_half_up v = \<lfloor>v + 1 / 2\<rfloor>"

definition spec_line_row :: "int \<Rightarrow> int \<Rightarrow> int \<Rightarrow> int \<Rightarrow> int \<Rightarrow> int" where
  "spec_line_row y1 x1 y2 x2 i =
     y1 + round_half_up (of_int (y2 - y1) * of_int (i - x1) / of_int (x2 - x1))"


section \<open>Small instances used in the examples\<close>

text \<open>The car of size 2, as the constructor draws it (lemma \<open>car_of_size_2\<close>).\<close>

definition car2 :: car_image where
  "car2 = \<lparr>storage = blank_storage((0, 0) := True, (0, 1) := True, (1, 0) := True, (1, 1) := True),
            dots = [(0, 0), (0, 1), (0, 0), (0, 1), (0, 0), (0, 1), (1, 0), (1, 1)],
            csize = 2\<rparr>"


text \<open>
  The car of the default size 10, as the constructor draws it (lemma \<open>car_of_size_10\<close>),
  and the settings of a race of one player on a terminal of 24 lines and 80 columns.
\<close>

definition dots10 :: "(int \<times> int) list" where
  "dots10 =
     [(0, 0), (0, 1), (0, 2), (1, 3), (1, 4), (1, 5), (1, 6), (2, 7), (2, 8), (2, 9),
      (4, 0), (4, 1), (4, 2), (4, 3), (4, 4), (4, 5), (4, 6), (3, 7), (3, 8), (3, 9),
      (4, 0), (4, 1), (4, 2), (5, 3), (5, 4), (5, 5), (5, 6), (6, 7), (6, 8), (6, 9),
      (9, 0), (9, 1), (9, 2), (9, 3), (9, 4), (8, 5), (8, 6), (8, 7), (7, 8), (7, 9)]"

definition car10 :: car_image where
  "car10 = \<lparr>storage = (\<lambda>p. p \<in> set dots10), dots = dots10, csize = 10\<rparr>"

definition race80 :: settings where
  "race80 = reset\<lparr>race_width := 80, minimal_width := 25\<rparr>"

definition starter :: player_handler where
  "starter = \<lparr>screen = [], win_height = 24, course = 0, car = car10,
               last_move = - INFINITY, pos_y = 490, pos_x = 34, top_line = 476,
               command_x = 0, command_y = 0, screen_height = 24,
               keys = [KEY_UP, KEY_DOWN, KEY_LEFT, KEY_RIGHT]\<rparr>"


text \<open>
  A source of random numbers that returns 0 at every call, and the settings of the
  scenario of claim C1.
\<close>

definition zeros :: rng where
  "zeros n = 0"

definition scenario :: settings where
  "scenario = reset\<lparr>race_length := 500, minimal_width := 40, race_width := 80,
                     players := 1, rock_chance := 0, turn_chance := 0\<rparr>"


text \<open>
  The columns of the kerbs of every line; a short and narrow race with a source of random
  numbers that turns both kerbs inwards on the first line and keeps them turning; and the
  settings that the constructor of the game derives for two players on a terminal of 80
  columns (lemma \<open>adjust_duel\<close>).
\<close>

definition kerb_columns :: "gen \<Rightarrow> nat list list" where
  "kerb_columns s = map kerbs (circuit s)"

definition narrow :: settings where
  "narrow = reset\<lparr>race_length := 3, race_width := 14, minimal_width := 10,
                   rock_chance := 0, turn_chance := 1 / 2\<rparr>"

definition swerve :: rng where
  "swerve n = (if n < 13
               then [0, 0, 2, RAND_MAX, 0, 0, RAND_MAX, 0, RAND_MAX, RAND_MAX, 0, RAND_MAX, RAND_MAX] ! n
               else 0)"

definition duel :: settings where
  "duel = reset\<lparr>players := 2, race_width := 40, minimal_width := 38\<rparr>"


text \<open>
  A shared race of two players with cars of size 2 on a track of six lines, in a window of
  six lines, seven ticks after the start.
\<close>

definition small :: settings where
  "small = reset\<lparr>players := 2, car_size := 2, race_length := 6, race_width := 8,
                  minimal_width := 2\<rparr>"

definition two_cars :: game where
  "two_cars =
     \<lparr>clock = 7,
      handlers =
        [\<lparr>screen = [], win_height = 6, course = 0, car = car2, last_move = 3,
          pos_y = 4, pos_x = 3, top_line = 0, command_x = 0, command_y = 0,
          screen_height = 6, keys = [KEY_UP, KEY_DOWN, KEY_LEFT, KEY_RIGHT]\<rparr>,
         \<lparr>screen = [], win_height = 6, course = 0, car = car2, last_move = 3,
          pos_y = 4, pos_x = 5, top_line = 0, command_x = 0, command_y = 0,
          screen_height = 6, keys = [119, 115, 97, 100]\<rparr>],
      alive = [True, True],
      tracks = [''0|     |'', ''1|     |'', ''2|     |'', ''3|     |'', ''4|     |'',
                ''5|     |''] # []\<rparr>"


text \<open>
  The new player of a race with the default settings on a terminal of 8 lines and 80
  columns (lemma \<open>cramped_ctor\<close>): the window is lower than the car.
\<close>

definition cramped :: player_handler where
  "cramped = starter\<lparr>win_height := 8, top_line := 492, screen_height := 8\<rparr>"


section \<open>Properties of the collision surface\<close>

text \<open>The equations of the loops are unfolded by hand, not by the simplifier.\<close>

declare line_loop.simps [simp del]
declare turn_loop.simps [simp del]
declare gen_lines.simps [simp del]

lemma same_shape_refl: "same_shape c c"
  by (simp add: same_shape_def)

lemma same_shape_trans: "same_shape a b \<Longrightarrow> same_shape b c \<Longrightarrow> same_shape a c"
  by (simp add: same_shape_def)

lemma same_shape_in_circuit: "same_shape c c' \<Longrightarrow> in_circuit c' i j = in_circuit c i j"
proof -
  assume s: "same_shape c c'"
  then have l: "length c' = length c"
    unfolding same_shape_def by (metis length_map)
  have "length (c' ! nat i) = length (c ! nat i)" if "nat i < length c"
    using s that l unfolding same_shape_def by (metis nth_map)
  then show ?thesis
    unfolding in_circuit_def using l by auto
qed

lemma same_shape_put: "same_shape c (put c i j v)"
proof -
  have "length (put c i j v ! r) = length (c ! r)" if "r < length c" for r
    using that by (cases "r = nat i") (simp_all add: put_def)
  then show ?thesis
    unfolding same_shape_def by (intro nth_equalityI) (simp_all add: put_def)
qed

lemma cell_put:
  "in_circuit c i j \<Longrightarrow> in_circuit c a b \<Longrightarrow>
   cell (put c i j v) a b = (if a = i \<and> b = j then v else cell c a b)"
  unfolding in_circuit_def cell_def put_def
  by (auto simp: nth_list_update)

lemma track_eqI:
  assumes s: "same_shape c c'"
    and e: "\<And>i j. in_circuit c i j \<Longrightarrow> cell c' i j = cell c i j"
  shows "c' = c"
proof (rule nth_equalityI)
  show l: "length c' = length c"
    using s unfolding same_shape_def by (metis length_map)
  fix r assume r: "r < length c'"
  have lr: "length (c' ! r) = length (c ! r)"
    using s r l unfolding same_shape_def by (metis nth_map)
  show "c' ! r = c ! r"
  proof (rule nth_equalityI)
    show "length (c' ! r) = length (c ! r)" by (rule lr)
    fix k assume k: "k < length (c' ! r)"
    have "in_circuit c (int r) (int k)"
      using r k l lr by (simp add: in_circuit_def)
    from e [OF this] show "c' ! r ! k = c ! r ! k"
      by (simp add: cell_def)
  qed
qed

text \<open>What \<^verbatim>\<open>track::mark\<close> leaves behind, cell by cell.\<close>

lemma mark_dots_spec:
  "fits c (footprint y x ds) \<Longrightarrow>
   \<exists>c'. mark_dots cfg c y x ds = Inr c' \<and> same_shape c c' \<and>
     (\<forall>i j. in_circuit c i j \<longrightarrow>
        cell c' i j = (if (i, j) \<in> set (footprint y x ds) \<and> cell c i j = CHR '' ''
                     then character cfg else cell c i j))"
proof (induction ds arbitrary: c)
  case Nil
  then show ?case by (simp add: footprint_def same_shape_refl)
next
  case (Cons d ds)
  let ?i = "y + fst d" and ?j = "x + snd d"
  let ?c1 = "if cell c ?i ?j = CHR '' '' then put c ?i ?j (character cfg) else c"
  have here: "in_circuit c ?i ?j" and rest: "fits c (footprint y x ds)"
    using Cons.prems by (simp_all add: fits_def footprint_def)
  have s1: "same_shape c ?c1"
    by (simp add: same_shape_put same_shape_refl)
  have "fits ?c1 (footprint y x ds)"
    using rest same_shape_in_circuit [OF s1] by (simp add: fits_def)
  from Cons.IH [OF this] obtain c' where
    m: "mark_dots cfg ?c1 y x ds = Inr c'" and s: "same_shape ?c1 c'" and
    a: "\<And>i j. in_circuit ?c1 i j \<Longrightarrow>
        cell c' i j = (if (i, j) \<in> set (footprint y x ds) \<and> cell ?c1 i j = CHR '' ''
                     then character cfg else cell ?c1 i j)"
    by blast
  have "mark_dots cfg c y x (d # ds) = Inr c'"
    using here m by simp
  moreover have "same_shape c c'"
    using s1 s by (rule same_shape_trans)
  moreover have "cell c' i j = (if (i, j) \<in> set (footprint y x (d # ds)) \<and> cell c i j = CHR '' ''
                     then character cfg else cell c i j)" if ij: "in_circuit c i j" for i j
  proof -
    have "in_circuit ?c1 i j"
      using ij same_shape_in_circuit [OF s1] by simp
    from a [OF this] show ?thesis
      using here ij by (auto simp: cell_put footprint_def)
  qed
  ultimately show ?case by blast
qed

lemma unmark_dots_spec:
  "fits c (footprint y x ds) \<Longrightarrow>
   \<exists>c'. unmark_dots cfg c y x ds = Inr c' \<and> same_shape c c' \<and>
     (\<forall>i j. in_circuit c i j \<longrightarrow>
        cell c' i j = (if (i, j) \<in> set (footprint y x ds) \<and> cell c i j = character cfg
                     then CHR '' '' else cell c i j))"
proof (induction ds arbitrary: c)
  case Nil
  then show ?case by (simp add: footprint_def same_shape_refl)
next
  case (Cons d ds)
  let ?i = "y + fst d" and ?j = "x + snd d"
  let ?c1 = "if cell c ?i ?j = character cfg then put c ?i ?j (CHR '' '') else c"
  have here: "in_circuit c ?i ?j" and rest: "fits c (footprint y x ds)"
    using Cons.prems by (simp_all add: fits_def footprint_def)
  have s1: "same_shape c ?c1"
    by (simp add: same_shape_put same_shape_refl)
  have "fits ?c1 (footprint y x ds)"
    using rest same_shape_in_circuit [OF s1] by (simp add: fits_def)
  from Cons.IH [OF this] obtain c' where
    m: "unmark_dots cfg ?c1 y x ds = Inr c'" and s: "same_shape ?c1 c'" and
    a: "\<And>i j. in_circuit ?c1 i j \<Longrightarrow>
        cell c' i j = (if (i, j) \<in> set (footprint y x ds) \<and> cell ?c1 i j = character cfg
                     then CHR '' '' else cell ?c1 i j)"
    by blast
  have "unmark_dots cfg c y x (d # ds) = Inr c'"
    using here m by simp
  moreover have "same_shape c c'"
    using s1 s by (rule same_shape_trans)
  moreover have "cell c' i j = (if (i, j) \<in> set (footprint y x (d # ds)) \<and> cell c i j = character cfg
                     then CHR '' '' else cell c i j)" if ij: "in_circuit c i j" for i j
  proof -
    have "in_circuit ?c1 i j"
      using ij same_shape_in_circuit [OF s1] by simp
    from a [OF this] show ?thesis
      using here ij by (auto simp: cell_put footprint_def)
  qed
  ultimately show ?case by blast
qed

text \<open>Marking or unmarking returns exactly when the whole footprint is on the track.\<close>

lemma mark_dots_fits: "mark_dots cfg c y x ds = Inr c' \<Longrightarrow> fits c (footprint y x ds)"
proof (induction ds arbitrary: c)
  case Nil
  then show ?case by (simp add: fits_def footprint_def)
next
  case (Cons d ds)
  let ?i = "y + fst d" and ?j = "x + snd d"
  let ?c1 = "if cell c ?i ?j = CHR '' '' then put c ?i ?j (character cfg) else c"
  have here: "in_circuit c ?i ?j"
    using Cons.prems by (simp split: if_splits)
  then have "mark_dots cfg ?c1 y x ds = Inr c'"
    using Cons.prems by simp
  from Cons.IH [OF this] have "fits ?c1 (footprint y x ds)" .
  moreover have "same_shape c ?c1"
    by (simp add: same_shape_put same_shape_refl)
  ultimately have "fits c (footprint y x ds)"
    using same_shape_in_circuit by (simp add: fits_def)
  then show ?case
    using here by (simp add: fits_def footprint_def)
qed

lemma unmark_dots_fits: "unmark_dots cfg c y x ds = Inr c' \<Longrightarrow> fits c (footprint y x ds)"
proof (induction ds arbitrary: c)
  case Nil
  then show ?case by (simp add: fits_def footprint_def)
next
  case (Cons d ds)
  let ?i = "y + fst d" and ?j = "x + snd d"
  let ?c1 = "if cell c ?i ?j = character cfg then put c ?i ?j (CHR '' '') else c"
  have here: "in_circuit c ?i ?j"
    using Cons.prems by (simp split: if_splits)
  then have "unmark_dots cfg ?c1 y x ds = Inr c'"
    using Cons.prems by simp
  from Cons.IH [OF this] have "fits ?c1 (footprint y x ds)" .
  moreover have "same_shape c ?c1"
    by (simp add: same_shape_put same_shape_refl)
  ultimately have "fits c (footprint y x ds)"
    using same_shape_in_circuit by (simp add: fits_def)
  then show ?case
    using here by (simp add: fits_def footprint_def)
qed


lemma track_mark_spec:
  assumes "track_mark cfg c y x img = Inr c'"
  shows "same_shape c c'"
    and "in_circuit c i j \<Longrightarrow>
         cell c' i j = (if (i, j) \<in> set (footprint y x (dots img)) \<and> cell c i j = CHR '' ''
                        then character cfg else cell c i j)"
proof -
  have m: "mark_dots cfg c y x (dots img) = Inr c'"
    using assms by (simp add: track_mark_def)
  from mark_dots_spec [OF mark_dots_fits [OF m], of cfg] m
  show "same_shape c c'"
    and "in_circuit c i j \<Longrightarrow>
         cell c' i j = (if (i, j) \<in> set (footprint y x (dots img)) \<and> cell c i j = CHR '' ''
                        then character cfg else cell c i j)"
    by auto
qed

lemma track_unmark_spec:
  assumes "track_unmark cfg c y x img = Inr c'"
  shows "same_shape c c'"
    and "in_circuit c i j \<Longrightarrow>
         cell c' i j = (if (i, j) \<in> set (footprint y x (dots img)) \<and> cell c i j = character cfg
                        then CHR '' '' else cell c i j)"
proof -
  have m: "unmark_dots cfg c y x (dots img) = Inr c'"
    using assms by (simp add: track_unmark_def)
  from unmark_dots_spec [OF unmark_dots_fits [OF m], of cfg] m
  show "same_shape c c'"
    and "in_circuit c i j \<Longrightarrow>
         cell c' i j = (if (i, j) \<in> set (footprint y x (dots img)) \<and> cell c i j = character cfg
                        then CHR '' '' else cell c i j)"
    by auto
qed

lemma track_mark_returns:
  "fits c (footprint y x (dots img)) \<Longrightarrow> \<exists>c'. track_mark cfg c y x img = Inr c'"
  using mark_dots_spec [of c y x "dots img" cfg] by (auto simp: track_mark_def)

lemma track_unmark_returns:
  "fits c (footprint y x (dots img)) \<Longrightarrow> \<exists>c'. track_unmark cfg c y x img = Inr c'"
  using unmark_dots_spec [of c y x "dots img" cfg] by (auto simp: track_unmark_def)

lemma car_clear_blank:
  "n \<le> MAX_CAR_SIZE + 1 \<Longrightarrow>
   car_clear \<lparr>storage = blank_storage, dots = ds, csize = n\<rparr> =
     Inr \<lparr>storage = blank_storage, dots = ds, csize = n\<rparr>"
  unfolding car_clear_def blank_storage_def by auto

lemmas car_image_evals =
  car_image_ctor_def car_clear_blank car_line_def line_loop.simps line_row_def to_int_def
  in_storage_def and_then_def Let_def signed_divide_int_def MAX_CAR_SIZE_def

lemma car_of_size_2: "car_image_ctor (reset\<lparr>car_size := 2\<rparr>) = Inr car2"
  by (simp add: car_image_evals reset_def car2_def fun_upd_twist)

lemmas track_evals =
  track_mark_def track_unmark_def track_taken_def in_circuit_def cell_def put_def
  fits_def footprint_def

subsection \<open>C8: marking writes empty cells only\<close>

text \<open>
  Claim C8. \<^verbatim>\<open>track::mark(row, col, car)\<close> writes only cells that are empty: a cell of
  the track that holds anything but a blank before the call (a rock, a kerb, a digit or a
  car marker) holds the same character after it, wherever the car is put.
\<close>

theorem mark_keeps_obstacles:
  assumes "track_mark cfg c y x img = Inr c'"
    and "in_circuit c i j"
    and "cell c i j \<noteq> CHR '' ''"
  shows "cell c' i j = cell c i j"
  using track_mark_spec(2) [OF assms(1) assms(2)] assms(3) by simp

text \<open>
  Example: the car of size 2 over a rock at the upper left corner of a track of two lines.
  The rock stays, the three blanks become car markers.
\<close>

theorem mark_keeps_obstacles_witness:
  "track_mark reset [''* '', ''  ''] 0 0 car2 = Inr [''*^'', ''^^''] \<and>
   in_circuit [''* '', ''  ''] 0 0 \<and>
   cell [''* '', ''  ''] 0 0 \<noteq> CHR '' '' \<and>
   cell [''*^'', ''^^''] 0 0 = cell [''* '', ''  ''] 0 0"
proof -
  have m: "track_mark reset [''* '', ''  ''] 0 0 car2 = Inr [''*^'', ''^^'']"
    by (simp add: track_evals car2_def reset_def)
  have i: "in_circuit [''* '', ''  ''] 0 0"
    by (simp add: in_circuit_def)
  have n: "cell [''* '', ''  ''] 0 0 \<noteq> CHR '' ''"
    by (simp add: cell_def)
  from mark_keeps_obstacles [OF m i n] m i n show ?thesis
    by (intro conjI)
qed

text \<open>
  The cells that \<^verbatim>\<open>mark\<close> changes: they were blank, they are under a dot of the car,
  and they hold the car character afterwards.
\<close>

lemma mark_changes_blank_cells_only:
  assumes "track_mark cfg c y x img = Inr c'"
    and "in_circuit c i j"
    and "cell c' i j \<noteq> cell c i j"
  shows "cell c i j = CHR '' '' \<and> cell c' i j = character cfg \<and>
         (i, j) \<in> set (footprint y x (dots img))"
  using track_mark_spec(2) [OF assms(1) assms(2)] assms(3) by (simp split: if_splits)

subsection \<open>C3: mark, then unmark\<close>

text \<open>
  Claim C3. For every track, every position and every car image whose dots all fall on
  the track: \<^verbatim>\<open>mark(row, col, car)\<close> followed by \<^verbatim>\<open>unmark(row, col, car)\<close> returns the
  track as it was before \<^verbatim>\<open>mark\<close>, provided that no other mark overlaps the cells of
  the car. Only \<^verbatim>\<open>mark\<close> writes the car character, so the proviso is that no cell under
  a dot of the car holds the car character before the call.
\<close>

theorem mark_unmark_roundtrip:
  assumes f: "fits c (footprint y x (dots img))"
    and n: "list_all (\<lambda>p. cell c (fst p) (snd p) \<noteq> character cfg) (footprint y x (dots img))"
  shows "and_then (track_mark cfg c y x img) (\<lambda>c'. track_unmark cfg c' y x img) = Inr c"
proof -
  from track_mark_returns [OF f] obtain c1 where m: "track_mark cfg c y x img = Inr c1"
    by blast
  note s1 = track_mark_spec(1) [OF m] and a1 = track_mark_spec(2) [OF m]
  have "fits c1 (footprint y x (dots img))"
    using f same_shape_in_circuit [OF s1] by (simp add: fits_def)
  from track_unmark_returns [OF this] obtain c2 where u: "track_unmark cfg c1 y x img = Inr c2"
    by blast
  note s2 = track_unmark_spec(1) [OF u] and a2 = track_unmark_spec(2) [OF u]
  have "c2 = c"
  proof (rule track_eqI)
    show "same_shape c c2"
      using s1 s2 by (rule same_shape_trans)
    fix i j assume ij: "in_circuit c i j"
    then have ij1: "in_circuit c1 i j"
      using same_shape_in_circuit [OF s1] by simp
    have "cell c i j \<noteq> character cfg" if "(i, j) \<in> set (footprint y x (dots img))"
      using n that by (auto simp: list_all_iff)
    then show "cell c2 i j = cell c i j"
      using a1 [OF ij] a2 [OF ij1] by auto
  qed
  then show ?thesis
    using m u by (simp add: and_then_def)
qed

theorem mark_unmark_roundtrip_witness:
  "fits [''* '', ''  ''] (footprint 0 0 (dots car2)) \<and>
   list_all (\<lambda>p. cell [''* '', ''  ''] (fst p) (snd p) \<noteq> character reset)
     (footprint 0 0 (dots car2)) \<and>
   and_then (track_mark reset [''* '', ''  ''] 0 0 car2)
     (\<lambda>c'. track_unmark reset c' 0 0 car2) = Inr [''* '', ''  '']"
proof -
  have f: "fits [''* '', ''  ''] (footprint 0 0 (dots car2))"
    by (simp add: track_evals car2_def)
  have n: "list_all (\<lambda>p. cell [''* '', ''  ''] (fst p) (snd p) \<noteq> character reset)
     (footprint 0 0 (dots car2))"
    by (simp add: track_evals car2_def reset_def)
  from mark_unmark_roundtrip [OF f n] f n show ?thesis
    by (intro conjI)
qed

text \<open>
  The overlap that the proviso sets aside: when the mark of another car lies under the
  car, \<^verbatim>\<open>mark\<close> leaves that cell as it is and \<^verbatim>\<open>unmark\<close> blanks it with the others.
\<close>

lemma overlapping_mark:
  "track_mark reset [''^ '', ''  ''] 0 0 car2 = Inr [''^^'', ''^^''] \<and>
   track_unmark reset [''^^'', ''^^''] 0 0 car2 = Inr [''  '', ''  '']"
  by (simp add: track_evals car2_def reset_def)


section \<open>Properties of the sprite\<close>

lemma car_of_size_10: "car_image_ctor race80 = Inr car10"
  apply (simp add: car_image_evals race80_def reset_def car10_def dots10_def fun_eq_iff)
  apply (auto simp: blank_storage_def)
  done

text \<open>
  What a call of \<^verbatim>\<open>_line\<close> does when the two columns differ and every pixel falls in
  the array: for each column from the smaller to the larger one, in this order, the pixel
  in row \<open>line_row\<close> is set and appended to the dots.
\<close>

lemma line_loop_spec:
  assumes "x1 \<noteq> x2"
    and "\<forall>k\<in>{i..x2}. in_storage (line_row y1 x1 y2 x2 k) k"
  shows "line_loop img y1 x1 y2 x2 i =
     Inr (img\<lparr>storage := (\<lambda>p. storage img p \<or> p \<in> set (map (\<lambda>k. (line_row y1 x1 y2 x2 k, k)) [i..x2])),
              dots := dots img @ map (\<lambda>k. (line_row y1 x1 y2 x2 k, k)) [i..x2]\<rparr>)"
  using assms
proof (induction img y1 x1 y2 x2 i rule: line_loop.induct)
  case (1 img y1 x1 y2 x2 i)
  show ?case
  proof (cases "i \<le> x2")
    case False
    then show ?thesis
      by (subst line_loop.simps) simp
  next
    case True
    let ?r = "line_row y1 x1 y2 x2 i"
    let ?img = "img\<lparr>storage := (storage img)((?r, i) := True), dots := dots img @ [(?r, i)]\<rparr>"
    have here: "in_storage ?r i"
      using "1.prems"(2) True by simp
    have rest: "\<forall>k\<in>{i + 1..x2}. in_storage (line_row y1 x1 y2 x2 k) k"
      using "1.prems"(2) by simp
    have ne: "x2 \<noteq> x1"
      using "1.prems"(1) by simp
    have u: "[i..x2] = i # [i + 1..x2]"
      using True by (simp add: upto_rec1)
    have "line_loop img y1 x1 y2 x2 i = line_loop ?img y1 x1 y2 x2 (i + 1)"
      using True ne here by (subst line_loop.simps) simp
    also have "\<dots> = Inr (?img\<lparr>storage := (\<lambda>p. storage ?img p \<or>
                      p \<in> set (map (\<lambda>k. (line_row y1 x1 y2 x2 k, k)) [i + 1..x2])),
                 dots := dots ?img @ map (\<lambda>k. (line_row y1 x1 y2 x2 k, k)) [i + 1..x2]\<rparr>)"
      using "1.IH" [OF True ne here "1.prems"(1) rest] .
    also have "\<dots> = Inr (img\<lparr>storage := (\<lambda>p. storage img p \<or>
                      p \<in> set (map (\<lambda>k. (line_row y1 x1 y2 x2 k, k)) [i..x2])),
                 dots := dots img @ map (\<lambda>k. (line_row y1 x1 y2 x2 k, k)) [i..x2]\<rparr>)"
    proof -
      have "(\<lambda>p. storage ?img p \<or> p \<in> set (map (\<lambda>k. (line_row y1 x1 y2 x2 k, k)) [i + 1..x2]))
          = (\<lambda>p. storage img p \<or> p \<in> set (map (\<lambda>k. (line_row y1 x1 y2 x2 k, k)) [i..x2]))"
        unfolding u by (auto simp: fun_eq_iff)
      then show ?thesis
        by (simp add: u)
    qed
    finally show ?thesis .
  qed
qed

text \<open>
  On a segment that does not go up from left to right (after the swap, \<open>y1 \<le> y2\<close>) the
  conversion to \<^verbatim>\<open>int\<close> rounds half up, as the comment in the program says.
\<close>

lemma line_row_half_up:
  assumes "y1 \<le> y2" and "x1 < x2" and "x1 \<le> i"
  shows "line_row y1 x1 y2 x2 i = spec_line_row y1 x1 y2 x2 i"
proof -
  have "0 \<le> (of_int (y2 - y1) * of_int (i - x1) / of_int (x2 - x1) :: real)"
    using assms by simp
  then show ?thesis
    by (simp add: line_row_def spec_line_row_def to_int_def round_half_up_def)
qed

subsection \<open>C5: the rows of a segment\<close>

text \<open>
  Claim C5 says that every segment is drawn with \<open>y = y1 + round((y2-y1)*(i-x1)/(x2-x1))\<close>,
  round half up. The program converts with \<^verbatim>\<open>(int)(v+0.5)\<close>, which drops the fraction
  towards zero, so a negative \<open>v + 0.5\<close> is rounded up instead of down. The second segment
  of the car of size 10 is \<^verbatim>\<open>_line(2, 9, 4, 0)\<close>: the points are swapped to \<open>(4, 0)\<close> and
  \<open>(2, 9)\<close>, and from column 3 on the pixel is one row below the row that the claim gives.
  The segment ends at \<open>(3, 9)\<close>, not at its end point \<open>(2, 9)\<close>.
\<close>

theorem line_drops_fraction_towards_zero:
  "map_sum id dots (car_line \<lparr>storage = blank_storage, dots = [], csize = 10\<rparr> 2 9 4 0) =
     Inr [(4, 0), (4, 1), (4, 2), (4, 3), (4, 4), (4, 5), (4, 6), (3, 7), (3, 8), (3, 9)] \<and>
   [spec_line_row 4 0 2 9 0, spec_line_row 4 0 2 9 1, spec_line_row 4 0 2 9 2,
    spec_line_row 4 0 2 9 3, spec_line_row 4 0 2 9 4, spec_line_row 4 0 2 9 5,
    spec_line_row 4 0 2 9 6, spec_line_row 4 0 2 9 7, spec_line_row 4 0 2 9 8,
    spec_line_row 4 0 2 9 9] = [4, 4, 4, 3, 3, 3, 3, 2, 2, 2]"
  by (simp add: car_line_def line_loop.simps line_row_def to_int_def in_storage_def
      MAX_CAR_SIZE_def spec_line_row_def round_half_up_def)

section \<open>Properties of the tick of a player\<close>

lemma sdiv_nonneg: "0 \<le> a \<Longrightarrow> 0 < b \<Longrightarrow> a sdiv b = a div (b::int)"
  by (cases "a = 0") (simp_all add: signed_divide_int_def)

lemma move_top_line: "top_line (move cfg p t) \<le> pos_y (move cfg p t)"
  by (simp add: move_def Let_def)

lemma move_top_line_nonneg: "0 \<le> top_line (move cfg p t)"
  by (simp add: move_def Let_def)

lemma starter_ctor: "player_handler_ctor race80 24 80 0 0 = Inr starter"
  by (simp add: player_handler_ctor_def car_of_size_10 and_then_def starter_def)
     (simp add: race80_def reset_def signed_divide_int_def)

text \<open>
  The car of a player that has moved once is not above the top line, since the move ends
  with the clamp; and the car of a new player is not above it when the car is not higher
  than the window.
\<close>

lemma player_tick_top_line:
  assumes "player_tick cfg c p t = Inr (q, s)" and "top_line p \<le> pos_y p"
  shows "top_line q \<le> pos_y q"
proof (cases "may_move cfg p t")
  case False
  then show ?thesis
    using assms by (simp add: player_tick_def split: if_splits)
next
  case True
  then have a: "after_move cfg c (move cfg p t) = Inr (q, s)"
    using assms(1) by (simp add: player_tick_def split: if_splits)
  have "top_line q = top_line (move cfg p t) \<and> pos_y q = pos_y (move cfg p t)"
    using a by (auto simp: after_move_def and_then_def split: if_splits sum.splits)
  then show ?thesis
    using move_top_line [of cfg p t] by simp
qed

lemma rect_in_circuit:
  "rect cfg c \<Longrightarrow>
   in_circuit c i j \<longleftrightarrow> 0 \<le> i \<and> i < race_length cfg \<and> 0 \<le> j \<and> j < race_width cfg"
  by (auto simp: rect_def in_circuit_def list_all_length split: if_splits)

lemma set_box:
  "set (box cfg y x) =
     {(i, j). y \<le> i \<and> i \<le> y + car_size cfg - 1 \<and> x \<le> j \<and> j \<le> x + car_size cfg - 1}"
  by (auto simp: box_def)

text \<open>
  The loops ask \<^verbatim>\<open>taken\<close> for every cell of the square under the car, also after a
  collision is found: they return exactly when the whole square is on the track.
\<close>

lemma collisions_leaves_track:
  assumes "\<not> list_all (\<lambda>p. in_circuit c (fst p) (snd p)) ps"
    and "list_all (\<lambda>p. in_storage (fst p - y) (snd p - x)) ps"
  shows "collisions c img y x ps s = Inl (OutOfBounds ''track::taken'')"
  using assms
proof (induction ps arbitrary: s)
  case Nil
  then show ?case by simp
next
  case (Cons p ps)
  show ?case
  proof (cases "in_circuit c (fst p) (snd p)")
    case False
    then show ?thesis
      by (simp add: track_taken_def)
  next
    case True
    then have "\<not> list_all (\<lambda>p. in_circuit c (fst p) (snd p)) ps"
      using Cons.prems(1) by simp
    moreover have "list_all (\<lambda>p. in_storage (fst p - y) (snd p - x)) ps"
      and "in_storage (fst p - y) (snd p - x)"
      using Cons.prems(2) by simp_all
    ultimately show ?thesis
      using True Cons.IH by (simp add: track_taken_def collision_check_def split: bool.splits)
  qed
qed




lemma player_handler_ctor_never_moved:
  "player_handler_ctor cfg rows cols position k = Inr p \<Longrightarrow> last_move p = - INFINITY"
  by (auto simp: player_handler_ctor_def and_then_def Let_def split: if_splits sum.splits)

lemma parse_input_position:
  "last_move (parse_input p k) = last_move p \<and> top_line (parse_input p k) = top_line p \<and>
   pos_y (parse_input p k) = pos_y p"
  by (simp add: parse_input_def Let_def)

lemma player_tick_settles:
  assumes "player_tick cfg c p t = Inr (q, s)"
    and "top_line p \<le> pos_y p \<or> last_move p = - INFINITY"
  shows "top_line q \<le> pos_y q \<or> last_move q = - INFINITY"
proof (cases "may_move cfg p t")
  case False
  then show ?thesis
    using assms by (simp add: player_tick_def split: if_splits)
next
  case True
  then have a: "after_move cfg c (move cfg p t) = Inr (q, s)"
    using assms(1) by (simp add: player_tick_def split: if_splits)
  have "top_line q = top_line (move cfg p t) \<and> pos_y q = pos_y (move cfg p t)"
    using a by (auto simp: after_move_def and_then_def split: if_splits sum.splits)
  then show ?thesis
    using move_top_line [of cfg p t] by simp
qed




subsection \<open>C4: the test that lets a car move\<close>



lemma new_player_ticks:
  assumes "player_handler_ctor cfg rows cols position k = Inr p" and "- INFINITY < t"
  shows "top_line p \<le> pos_y p \<or> last_move p < t"
  using player_handler_ctor_never_moved [OF assms(1)] assms(2) by simp

subsection \<open>C7: the plain win\<close>

text \<open>
  Claim C7. When the test lets the car move and the row of the car after the move and the
  clamp is 0 or less, \<^verbatim>\<open>tick\<close> returns false at once: the answer is the moved player
  with nothing more drawn on its window, whatever the track holds (the track is neither
  displayed nor asked for obstacles, so no explosion is drawn and no cell is read).
\<close>

theorem plain_win:
  assumes "speed_base cfg \<noteq> 0" and "may_move cfg p t" and "pos_y (move cfg p t) \<le> 0"
  shows "player_tick cfg c p t = Inr (move cfg p t, False) \<and>
         screen (move cfg p t) = screen p"
  using assms by (simp add: player_tick_def after_move_def) (simp add: move_def Let_def)

text \<open>
  Example: a car in the second line of the track, the top line of its window at the
  finish, last moved at time 700; at time 701 it reaches line 0. The track given is the
  empty one, on which any read would be out of bounds.
\<close>

theorem plain_win_witness:
  "speed_base race80 \<noteq> 0 \<and>
   may_move race80 (starter\<lparr>pos_y := 1, top_line := 0, last_move := 700\<rparr>) 701 \<and>
   pos_y (move race80 (starter\<lparr>pos_y := 1, top_line := 0, last_move := 700\<rparr>) 701) \<le> 0 \<and>
   player_tick race80 [] (starter\<lparr>pos_y := 1, top_line := 0, last_move := 700\<rparr>) 701 =
     Inr (move race80 (starter\<lparr>pos_y := 1, top_line := 0, last_move := 700\<rparr>) 701, False) \<and>
   screen (move race80 (starter\<lparr>pos_y := 1, top_line := 0, last_move := 700\<rparr>) 701) = []"
proof -
  let ?p = "starter\<lparr>pos_y := 1, top_line := 0, last_move := 700\<rparr>"
  have s: "speed_base race80 \<noteq> 0"
    by (simp add: race80_def reset_def)
  have m: "may_move race80 ?p 701"
    by (simp add: may_move_def starter_def race80_def reset_def signed_divide_int_def)
  have y: "pos_y (move race80 ?p 701) \<le> 0"
    by (simp add: move_def starter_def race80_def reset_def Let_def)
  have sc: "screen ?p = []"
    by (simp add: starter_def)
  from plain_win [OF s m y, of "[]"] s m y sc show ?thesis
    by simp
qed


section \<open>Properties of the track generator\<close>

text \<open>
  The lemmas follow the constructor from the inside out: the loop that turns a kerb, one
  line, the loop over the lines, the constructor.
\<close>


lemma smod3: "int k smod 3 - 1 \<in> {- 1, 0, 1}"
proof -
  have "int k smod 3 = int k mod 3"
    by (cases "k = 0") (simp_all add: signed_modulo_int_def)
  moreover have "int k mod 3 \<in> {0, 1, 2}"
    by auto
  ultimately show ?thesis
    by auto
qed

lemma turn_loop_dir:
  "d \<in> {- 1, 0, 1} \<Longrightarrow> fst (turn_loop cfg g edge b tries d n) \<in> {- 1, 0, 1}"
proof (induction cfg g edge b tries d n rule: turn_loop.induct)
  case (1 cfg g edge b tries d n)
  show ?case
  proof (cases "tries < 5 \<and> (drand g n < turn_chance cfg \<or> b + d = edge)")
    case True
    then have "turn_loop cfg g edge b tries d n =
        turn_loop cfg g edge b (Suc tries) (int (g (Suc n)) smod 3 - 1) (n + 2)"
      by (subst turn_loop.simps) simp
    moreover have "fst (turn_loop cfg g edge b (Suc tries) (int (g (Suc n)) smod 3 - 1) (n + 2))
        \<in> {- 1, 0, 1}"
      using True by (intro "1.IH" smod3) simp_all
    ultimately show ?thesis by simp
  next
    case False
    then show ?thesis
      using "1.prems" by (subst turn_loop.simps) auto
  qed
qed

lemma drand_nonneg: "\<not> drand g n < 0"
  by (simp add: drand_def not_less)

lemma turn_loop_still:
  "turn_chance cfg = 0 \<Longrightarrow> b + d \<noteq> edge \<Longrightarrow> turn_loop cfg g edge b 0 d n = (d, n + 1, 1)"
  by (subst turn_loop.simps) (simp add: drand_nonneg)

lemma turn_kerb_dir:
  assumes "d \<in> {- 1, 0, 1}" and "wider \<in> {- 1, 0, 1}"
  shows "fst (turn_kerb cfg g edge wider wd b d n) \<in> {- 1, 0, 1}"
    and "b + fst (turn_kerb cfg g edge wider wd b d n) \<noteq> edge \<or> fst (turn_kerb cfg g edge wider wd b d n) = 0"
    and "wd < minimal_width cfg \<Longrightarrow> fst (turn_kerb cfg g edge wider wd b d n) \<in> {wider, 0}"
  using turn_loop_dir [OF assms(1), of cfg g edge b 0 n] assms(2)
  by (auto simp: turn_kerb_def Let_def split: prod.splits)

lemma turn_kerb_still:
  "turn_chance cfg = 0 \<Longrightarrow> b + d \<noteq> edge \<Longrightarrow> \<not> wd < minimal_width cfg \<Longrightarrow>
   turn_kerb cfg g edge wider wd b d n = (d, n + 1, 1)"
  by (simp add: turn_kerb_def turn_loop_still)


lemma throw_rock_none:
  "rock_chance cfg = 0 \<Longrightarrow> throw_rock cfg g i c n = Inr (c, n + 1)"
  by (simp add: throw_rock_def drand_nonneg)

lemma kerbs_pair:
  assumes ab: "a < b" and bn: "b < length base"
    and x: "is_kerb x" and y: "is_kerb y"
    and none: "\<And>j. j < length base \<Longrightarrow> j \<noteq> a \<Longrightarrow> j \<noteq> b \<Longrightarrow> \<not> is_kerb (base ! j)"
  shows "kerbs (base[a := x, b := y]) = [a, b]"
proof -
  let ?row = "base[a := x, b := y]"
  have "sorted (kerbs ?row)" and "distinct (kerbs ?row)"
    by (simp_all add: kerbs_def sorted_wrt_filter)
  moreover have "set (kerbs ?row) = {a, b}"
    using ab bn x y none by (auto simp: kerbs_def nth_list_update)
  moreover have "sorted [a, b]" and "distinct [a, b]" and "set [a, b] = {a, b}"
    using ab by auto
  ultimately show ?thesis
    by (metis sorted_distinct_set_unique)
qed


lemma put_rows:
  "length (put c i j v) = length c"
  "nat i < length c \<Longrightarrow> put c i j v ! nat i = (c ! nat i)[nat j := v]"
  "r \<noteq> nat i \<Longrightarrow> put c i j v ! r = c ! r"
  by (simp_all add: put_def)

lemma put_as_row:
  "nat i < length c \<Longrightarrow> c ! nat i = row \<Longrightarrow> put c i j v = c[nat i := row[nat j := v]]"
  by (simp add: put_def)

lemma draw_kerb_spec:
  "d \<in> {- 1, 0, 1} \<Longrightarrow> in_circuit c i b \<Longrightarrow>
   \<exists>k. is_kerb k \<and> draw_kerb c i b d = Inr (put c i b k)"
  by (auto simp: draw_kerb_def put_checked_def is_kerb_def)

lemma throw_rock_spec:
  assumes "0 < race_width cfg" and "0 \<le> i" and "nat i < length c"
    and "length (c ! nat i) = nat (race_width cfg)"
  shows "\<exists>c' n'. throw_rock cfg g i c n = Inr (c', n') \<and>
           (c' = c \<or> (\<exists>r. r < nat (race_width cfg) \<and> c' = put c i (int r) (CHR ''*'')))"
proof (cases "drand g n < rock_chance cfg")
  case False
  then show ?thesis
    by (simp add: throw_rock_def)
next
  case True
  let ?r = "int (g (n + 1)) smod race_width cfg"
  have m: "?r = int (g (n + 1)) mod race_width cfg"
    using assms(1) by (cases "g (n + 1) = 0") (simp_all add: signed_modulo_int_def)
  have r: "0 \<le> ?r" "?r < race_width cfg"
    using assms(1) unfolding m by simp_all
  then have "in_circuit c i ?r"
    using assms by (simp add: in_circuit_def)
  then have "throw_rock cfg g i c n = Inr (put c i ?r (CHR ''*''), n + 2)"
    using True assms(1) by (simp add: throw_rock_def put_checked_def and_then_def)
  moreover have "nat ?r < nat (race_width cfg)" and "int (nat ?r) = ?r"
    using r by simp_all
  ultimately show ?thesis
    by metis
qed

lemma digit_no_kerb: "0 \<le> i \<Longrightarrow> \<not> is_kerb (digits ! nat (i smod 10))"
proof -
  assume "0 \<le> i"
  then have "i smod 10 = i mod 10"
    by (cases "i = 0") (simp_all add: signed_modulo_int_def)
  moreover have "nat (i mod 10) < 10"
    by simp
  moreover have "\<not> is_kerb (digits ! k)" if "k < 10" for k
  proof -
    from that have "k \<in> {0, 1, 2, 3, 4, 5, 6, 7, 8, 9}"
      by auto
    then show ?thesis
      by (auto simp: digits_def is_kerb_def)
  qed
  ultimately show ?thesis
    by simp
qed

lemma plain_no_kerb: "\<not> is_kerb (CHR '' '')" "\<not> is_kerb (CHR ''*'')"
  by (simp_all add: is_kerb_def)

lemma gen_line_spec:
  assumes rc: "rect cfg (circuit s)"
    and i: "0 \<le> i" "i < race_length cfg"
    and d: "directions0 s \<in> {- 1, 0, 1}" "directions1 s \<in> {- 1, 0, 1}"
    and b0: "0 \<le> borders0 s + directions0 s" "borders0 s + directions0 s < race_width cfg"
    and b1: "0 \<le> borders1 s + directions1 s" "borders1 s + directions1 s < race_width cfg"
  shows "\<exists>s' base k0 k1 n n'.
     gen_line cfg g i s = Inr s' \<and>
     circuit s' = (circuit s)[nat i := base[nat (borders0 s + directions0 s) := k0,
                                            nat (borders1 s + directions1 s) := k1]] \<and>
     length base = nat (race_width cfg) \<and> (\<forall>j < nat (race_width cfg). \<not> is_kerb (base ! j)) \<and>
     is_kerb k0 \<and> is_kerb k1 \<and>
     borders0 s' = borders0 s + directions0 s \<and> borders1 s' = borders1 s + directions1 s \<and>
     directions0 s' = fst (turn_kerb cfg g 0 (- 1)
        (borders1 s + directions1 s - (borders0 s + directions0 s))
        (borders0 s + directions0 s) (directions0 s) n) \<and>
     directions1 s' = fst (turn_kerb cfg g (race_width cfg) 1
        (borders1 s + directions1 s - (borders0 s + directions0 s))
        (borders1 s + directions1 s) (directions1 s) n')"
proof -
  let ?w = "race_width cfg"
  let ?nb0 = "borders0 s + directions0 s" and ?nb1 = "borders1 s + directions1 s"
  let ?blank = "replicate (nat ?w) (CHR '' '')"
  let ?c0 = "(circuit s)[nat i := replicate (length (circuit s ! nat i)) (CHR '' '')]"
  let ?dg = "digits ! nat (i smod 10)"
  have w: "0 < ?w"
    using b0 by simp
  have li: "nat i < length (circuit s)"
    using rc i by (simp add: rect_def)
  have lr: "length (circuit s ! nat i) = nat ?w"
    using rc li by (simp add: rect_def list_all_length)
  have c0: "?c0 = (circuit s)[nat i := ?blank]"
    by (simp add: lr)
  let ?r1 = "?blank[0 := ?dg]"
  let ?c1 = "(circuit s)[nat i := ?r1]"
  have p1: "put_checked ''track::track'' ?c0 i 0 ?dg = Inr ?c1"
    using w li i by (simp add: put_checked_def in_circuit_def lr put_def)
  have "nat i < length ?c1" and "length (?c1 ! nat i) = nat ?w"
    using li by simp_all
  from throw_rock_spec [OF w i(1) this, of g "seed s"] obtain c2 n1 where
    t: "throw_rock cfg g i ?c1 (seed s) = Inr (c2, n1)" and
    c2: "c2 = ?c1 \<or> (\<exists>r. r < nat ?w \<and> c2 = put ?c1 i (int r) (CHR ''*''))"
    by blast
  define base where "base = c2 ! nat i"
  have c2': "c2 = (circuit s)[nat i := base]" and lb: "length base = nat ?w"
    and nk: "\<forall>j < nat ?w. \<not> is_kerb (base ! j)"
  proof -
    have dk: "\<not> is_kerb ?dg"
      using i(1) by (rule digit_no_kerb)
    have r1: "\<not> is_kerb (?r1 ! j)" if "j < nat ?w" for j
      using dk that plain_no_kerb by (simp add: nth_list_update)
    from c2 show "c2 = (circuit s)[nat i := base]"
      unfolding base_def using li by (auto simp: put_def)
    from c2 show "length base = nat ?w"
      unfolding base_def using li by (auto simp: put_def)
    from c2 consider "base = ?r1" | r where "r < nat ?w" and "base = ?r1[r := CHR ''*'']"
      unfolding base_def using li by (auto simp: put_def)
    then show "\<forall>j < nat ?w. \<not> is_kerb (base ! j)"
    proof cases
      case 1
      then show ?thesis
        using r1 by blast
    next
      case 2
      have "\<not> is_kerb (base ! j)" if "j < nat ?w" for j
      proof (cases "j = r")
        case True
        then show ?thesis
          using 2 plain_no_kerb(2) by simp
      next
        case False
        then have "base ! j = ?r1 ! j"
          using 2 by simp
        then show ?thesis
          using r1 [OF that] by simp
      qed
      then show ?thesis
        by blast
    qed
  qed
  have in0: "in_circuit c2 i ?nb0"
    using c2' li lb i b0 by (simp add: in_circuit_def)
  from draw_kerb_spec [OF d(1) in0] obtain k0 where
    k0: "is_kerb k0" and dk0: "draw_kerb c2 i ?nb0 (directions0 s) = Inr (put c2 i ?nb0 k0)"
    by blast
  let ?c3 = "(circuit s)[nat i := base[nat ?nb0 := k0]]"
  have c3: "put c2 i ?nb0 k0 = ?c3"
    using c2' li by (simp add: put_def)
  have in1: "in_circuit ?c3 i ?nb1"
    using li lb i b1 by (simp add: in_circuit_def)
  from draw_kerb_spec [OF d(2) in1] obtain k1 where
    k1: "is_kerb k1" and dk1: "draw_kerb ?c3 i ?nb1 (directions1 s) = Inr (put ?c3 i ?nb1 k1)"
    by blast
  let ?c4 = "(circuit s)[nat i := base[nat ?nb0 := k0, nat ?nb1 := k1]]"
  have c4: "put ?c3 i ?nb1 k1 = ?c4"
    using li by (simp add: put_def)
  obtain da na ta where ta: "turn_kerb cfg g 0 (- 1) (?nb1 - ?nb0) ?nb0 (directions0 s) n1 = (da, na, ta)"
    by (metis prod_cases3)
  obtain db nb tb where tb: "turn_kerb cfg g ?w 1 (?nb1 - ?nb0) ?nb1 (directions1 s) na = (db, nb, tb)"
    by (metis prod_cases3)
  have "gen_line cfg g i s =
      Inr \<lparr>circuit = ?c4, borders0 = ?nb0, borders1 = ?nb1, directions0 = da, directions1 = db,
           seed = nb, capped = (if ta = 6 \<or> tb = 6 then capped s @ [i] else capped s)\<rparr>"
    unfolding gen_line_def Let_def
    by (simp add: p1 t dk0 c3 dk1 c4 ta tb and_then_def del: list_update_overwrite)
  then show ?thesis
    using lb nk k0 k1 ta tb
    by (intro exI [of _ "\<lparr>circuit = ?c4, borders0 = ?nb0, borders1 = ?nb1, directions0 = da,
           directions1 = db, seed = nb,
           capped = (if ta = 6 \<or> tb = 6 then capped s @ [i] else capped s)\<rparr>"]
        exI [of _ base] exI [of _ k0] exI [of _ k1] exI [of _ n1] exI [of _ na]) simp
qed


lemma rect_update:
  "rect cfg c \<Longrightarrow> length row = nat (race_width cfg) \<Longrightarrow> rect cfg (c[k := row])"
  by (auto simp: rect_def list_all_iff dest!: subsetD [OF set_update_subset_insert])

lemma gen_line_step:
  assumes rc: "rect cfg (circuit s)"
    and i: "0 \<le> i" "i < race_length cfg"
    and oc: "on_course cfg s"
    and mw: "2 \<le> minimal_width cfg"
  shows "\<exists>s'. gen_line cfg g i s = Inr s' \<and> rect cfg (circuit s') \<and> on_course cfg s' \<and>
           (\<forall>r. r \<noteq> nat i \<longrightarrow> circuit s' ! r = circuit s ! r) \<and>
           (3 \<le> minimal_width cfg \<longrightarrow> two_kerbs (minimal_width cfg) (circuit s' ! nat i))"
proof -
  let ?w = "race_width cfg" and ?m = "minimal_width cfg"
  let ?nb0 = "borders0 s + directions0 s" and ?nb1 = "borders1 s + directions1 s"
  from oc have d: "directions0 s \<in> {- 1, 0, 1}" "directions1 s \<in> {- 1, 0, 1}"
    and lo: "1 \<le> ?nb0" and hi: "?nb1 \<le> ?w - 1" and wd: "?m - 2 \<le> ?nb1 - ?nb0"
    by (simp_all add: on_course_def)
  have b0: "0 \<le> ?nb0" "?nb0 < ?w" and b1: "0 \<le> ?nb1" "?nb1 < ?w"
    using lo hi wd mw by simp_all
  from gen_line_spec [OF rc i d b0 b1, of g] obtain s' base k0 k1 n n' where
    g: "gen_line cfg g i s = Inr s'" and
    c: "circuit s' = (circuit s)[nat i := base[nat ?nb0 := k0, nat ?nb1 := k1]]" and
    lb: "length base = nat ?w" and nk: "\<forall>j < nat ?w. \<not> is_kerb (base ! j)" and
    k: "is_kerb k0" "is_kerb k1" and
    nb: "borders0 s' = ?nb0" "borders1 s' = ?nb1" and
    d0: "directions0 s' = fst (turn_kerb cfg g 0 (- 1) (?nb1 - ?nb0) ?nb0 (directions0 s) n)" and
    d1: "directions1 s' = fst (turn_kerb cfg g ?w 1 (?nb1 - ?nb0) ?nb1 (directions1 s) n')"
    by blast
  have li: "nat i < length (circuit s)"
    using rc i by (simp add: rect_def)
  have "rect cfg (circuit s')"
    unfolding c using rc lb by (intro rect_update) simp_all
  moreover have "on_course cfg s'"
  proof -
    have w0: "(- 1 :: int) \<in> {- 1, 0, 1}" and w1: "(1 :: int) \<in> {- 1, 0, 1}"
      by simp_all
    note t0 = turn_kerb_dir [where cfg = cfg and g = g and edge = 0 and wd = "?nb1 - ?nb0"
        and b = ?nb0 and n = n, OF d(1) w0, folded d0]
    note t1 = turn_kerb_dir [where cfg = cfg and g = g and edge = ?w and wd = "?nb1 - ?nb0"
        and b = ?nb1 and n = n', OF d(2) w1, folded d1]
    have a: "directions0 s' \<in> {- 1, 0, 1}" and b: "directions1 s' \<in> {- 1, 0, 1}"
      using t0(1) t1(1) by simp_all
    have e0: "?nb0 + directions0 s' \<noteq> 0 \<or> directions0 s' = 0"
      using t0(2) by simp
    have e1: "?nb1 + directions1 s' \<noteq> ?w \<or> directions1 s' = 0"
      using t1(2) by simp
    have n0: "?nb1 - ?nb0 < ?m \<Longrightarrow> directions0 s' \<le> 0"
      using t0(3) by auto
    have n1: "?nb1 - ?nb0 < ?m \<Longrightarrow> 0 \<le> directions1 s'"
      using t1(3) by auto
    have "1 \<le> ?nb0 + directions0 s'"
      using a e0 lo by auto
    moreover have "?nb1 + directions1 s' \<le> ?w - 1"
      using b e1 hi by auto
    moreover have "?m - 2 \<le> (?nb1 + directions1 s') - (?nb0 + directions0 s')"
    proof (cases "?nb1 - ?nb0 < ?m")
      case True
      then show ?thesis
        using n0 n1 wd by simp
    next
      case False
      then show ?thesis
        using a b by auto
    qed
    ultimately show ?thesis
      using a b by (simp add: on_course_def nb)
  qed
  moreover have "\<forall>r. r \<noteq> nat i \<longrightarrow> circuit s' ! r = circuit s ! r"
    unfolding c by simp
  moreover have "two_kerbs ?m (circuit s' ! nat i)" if "3 \<le> ?m"
  proof -
    have lt: "nat ?nb0 < nat ?nb1"
      using that wd lo by simp
    have "circuit s' ! nat i = base[nat ?nb0 := k0, nat ?nb1 := k1]"
      unfolding c using li by simp
    moreover have "kerbs (base[nat ?nb0 := k0, nat ?nb1 := k1]) = [nat ?nb0, nat ?nb1]"
      using lt b1 lb k nk by (intro kerbs_pair) simp_all
    ultimately show ?thesis
      using lt wd lo by (simp add: two_kerbs_def)
  qed
  ultimately show ?thesis
    using g by blast
qed

lemma gen_lines_steps:
  assumes "rect cfg (circuit s)" and "i < race_length cfg" and "on_course cfg s"
    and "2 \<le> minimal_width cfg"
  shows "\<exists>s'. gen_lines cfg g i s = Inr s' \<and> rect cfg (circuit s') \<and>
           (\<forall>r. i < int r \<longrightarrow> circuit s' ! r = circuit s ! r) \<and>
           (3 \<le> minimal_width cfg \<longrightarrow>
              (\<forall>r. int r \<le> i \<longrightarrow> two_kerbs (minimal_width cfg) (circuit s' ! r)))"
  using assms
proof (induction cfg g i s rule: gen_lines.induct)
  case (1 cfg g i s)
  show ?case
  proof (cases "0 \<le> i")
    case False
    then show ?thesis
      using "1.prems"(1) by (subst gen_lines.simps) simp
  next
    case True
    from gen_line_step [OF "1.prems"(1) True "1.prems"(2,3,4), of g] obtain s1 where
      g1: "gen_line cfg g i s = Inr s1" and r1: "rect cfg (circuit s1)" and
      o1: "on_course cfg s1" and
      same1: "\<And>r. r \<noteq> nat i \<Longrightarrow> circuit s1 ! r = circuit s ! r" and
      row1: "3 \<le> minimal_width cfg \<Longrightarrow> two_kerbs (minimal_width cfg) (circuit s1 ! nat i)"
      by blast
    have "i - 1 < race_length cfg"
      using "1.prems"(2) by simp
    from "1.IH" [OF True g1 r1 this o1 "1.prems"(4)] obtain s' where
      g2: "gen_lines cfg g (i - 1) s1 = Inr s'" and r2: "rect cfg (circuit s')" and
      same2: "\<And>r. i - 1 < int r \<Longrightarrow> circuit s' ! r = circuit s1 ! r" and
      row2: "3 \<le> minimal_width cfg \<Longrightarrow>
             (\<forall>r. int r \<le> i - 1 \<longrightarrow> two_kerbs (minimal_width cfg) (circuit s' ! r))"
      by blast
    have "gen_lines cfg g i s = Inr s'"
      using True g1 g2 by (subst gen_lines.simps) simp
    moreover have "circuit s' ! r = circuit s ! r" if "i < int r" for r
      using same2 [of r] same1 [of r] that True by simp
    moreover have "two_kerbs (minimal_width cfg) (circuit s' ! r)"
      if m: "3 \<le> minimal_width cfg" and r: "int r \<le> i" for r
    proof (cases "int r = i")
      case True
      then have "r = nat i" by simp
      then show ?thesis
        using same2 [of r] row1 [OF m] True by simp
    next
      case False
      then show ?thesis
        using row2 [OF m] r by simp
    qed
    ultimately show ?thesis
      using r2 by blast
  qed
qed



text \<open>The state before the first line, for a road that leaves room on both sides.\<close>

lemma first_borders:
  assumes "0 \<le> m" and "m + 4 \<le> (w::int)"
  shows "(w - m) sdiv 4 = (w - m) div 4" and "(w * 3 + m) sdiv 4 = (w * 3 + m) div 4"
    and "1 \<le> (w - m) div 4" and "(w * 3 + m) div 4 \<le> w - 1"
    and "m \<le> (w * 3 + m) div 4 - (w - m) div 4"
  using assms by (simp_all add: sdiv_nonneg)

lemma in_range:
  assumes "0 \<le> m" and "m \<le> (w::int)" and "w * 3 + m \<le> INT_MAX"
  shows "int32 (w - m) \<and> int32 (w * 3) \<and> int32 (w * 3 + m)"
  using assms by (simp add: int32_def INT_MAX_def INT_MIN_def)

lemma generate_steps:
  assumes l: "0 \<le> race_length cfg" and m: "2 \<le> minimal_width cfg"
    and w: "minimal_width cfg + 4 \<le> race_width cfg"
    and o: "race_width cfg * 3 + minimal_width cfg \<le> INT_MAX"
  shows "\<exists>s. generate cfg g n = Inr s \<and> rect cfg (circuit s) \<and>
           (3 \<le> minimal_width cfg \<longrightarrow> list_all (two_kerbs (minimal_width cfg)) (circuit s))"
proof -
  let ?s0 = "\<lparr>circuit = replicate (nat (race_length cfg)) (replicate (nat (race_width cfg)) (CHR 0x00)),
              borders0 = (race_width cfg - minimal_width cfg) sdiv 4,
              borders1 = (race_width cfg * 3 + minimal_width cfg) sdiv 4,
              directions0 = 0, directions1 = 0, seed = n, capped = []\<rparr>"
  have m0: "0 \<le> minimal_width cfg"
    using m by simp
  note fb = first_borders [OF m0 w]
  have "minimal_width cfg \<le> race_width cfg"
    using w by simp
  note ir = in_range [OF m0 this o]
  have g: "generate cfg g n = gen_lines cfg g (race_length cfg - 1) ?s0"
    using l m w ir by (simp add: generate_def)
  have r0: "rect cfg (circuit ?s0)"
    by (simp add: rect_def list_all_length)
  have o0: "on_course cfg ?s0"
    using fb by (simp add: on_course_def)
  have "race_length cfg - 1 < race_length cfg"
    by simp
  from gen_lines_steps [OF r0 this o0 m, of g] obtain s where
    s: "gen_lines cfg g (race_length cfg - 1) ?s0 = Inr s" and rc: "rect cfg (circuit s)" and
    rows: "3 \<le> minimal_width cfg \<Longrightarrow>
           (\<forall>r. int r \<le> race_length cfg - 1 \<longrightarrow> two_kerbs (minimal_width cfg) (circuit s ! r))"
    by blast
  have "list_all (two_kerbs (minimal_width cfg)) (circuit s)" if "3 \<le> minimal_width cfg"
    using rows [OF that] rc by (auto simp: list_all_length rect_def)
  then show ?thesis
    using g s rc by simp
qed

lemma gen_line_straight:
  assumes rc: "rect cfg (circuit s)"
    and i: "0 \<le> i" "i < race_length cfg"
    and ch: "rock_chance cfg = 0" "turn_chance cfg = 0"
    and d: "directions0 s = 0" "directions1 s = 0"
    and b: "0 < borders0 s" "borders0 s < borders1 s" "borders1 s < race_width cfg"
    and m: "minimal_width cfg \<le> borders1 s - borders0 s"
  shows "\<exists>s'. gen_line cfg g i s = Inr s' \<and> rect cfg (circuit s') \<and>
           borders0 s' = borders0 s \<and> borders1 s' = borders1 s \<and>
           directions0 s' = 0 \<and> directions1 s' = 0 \<and>
           (\<forall>r. r \<noteq> nat i \<longrightarrow> circuit s' ! r = circuit s ! r) \<and>
           kerbs (circuit s' ! nat i) = [nat (borders0 s), nat (borders1 s)]"
proof -
  let ?w = "race_width cfg"
  have d': "directions0 s \<in> {- 1, 0, 1}" "directions1 s \<in> {- 1, 0, 1}"
    using d by simp_all
  have b0: "0 \<le> borders0 s + directions0 s" "borders0 s + directions0 s < ?w"
    and b1: "0 \<le> borders1 s + directions1 s" "borders1 s + directions1 s < ?w"
    using b d by simp_all
  from gen_line_spec [OF rc i d' b0 b1, of g] obtain s' base k0 k1 n n' where
    g: "gen_line cfg g i s = Inr s'" and
    c: "circuit s' = (circuit s)[nat i := base[nat (borders0 s) := k0, nat (borders1 s) := k1]]" and
    lb: "length base = nat ?w" and nk: "\<forall>j < nat ?w. \<not> is_kerb (base ! j)" and
    k: "is_kerb k0" "is_kerb k1" and
    nb: "borders0 s' = borders0 s" "borders1 s' = borders1 s" and
    d0: "directions0 s' = fst (turn_kerb cfg g 0 (- 1) (borders1 s - borders0 s) (borders0 s) 0 n)" and
    d1: "directions1 s' = fst (turn_kerb cfg g ?w 1 (borders1 s - borders0 s) (borders1 s) 0 n')"
    unfolding d by auto
  have li: "nat i < length (circuit s)"
    using rc i by (simp add: rect_def)
  have "rect cfg (circuit s')"
    unfolding c using rc lb by (intro rect_update) simp_all
  moreover have "directions0 s' = 0" and "directions1 s' = 0"
    using b m ch(2) by (simp_all add: d0 d1 turn_kerb_still)
  moreover have "\<forall>r. r \<noteq> nat i \<longrightarrow> circuit s' ! r = circuit s ! r"
    unfolding c by simp
  moreover have "kerbs (circuit s' ! nat i) = [nat (borders0 s), nat (borders1 s)]"
  proof -
    have "circuit s' ! nat i = base[nat (borders0 s) := k0, nat (borders1 s) := k1]"
      unfolding c using li by simp
    moreover have "kerbs (base[nat (borders0 s) := k0, nat (borders1 s) := k1])
        = [nat (borders0 s), nat (borders1 s)]"
      using b lb k nk by (intro kerbs_pair) simp_all
    ultimately show ?thesis
      by simp
  qed
  ultimately show ?thesis
    using g nb by blast
qed

lemma gen_lines_straight:
  assumes "rect cfg (circuit s)" and "i < race_length cfg"
    and "rock_chance cfg = 0" and "turn_chance cfg = 0"
    and "directions0 s = 0" and "directions1 s = 0"
    and "0 < borders0 s" and "borders0 s < borders1 s" and "borders1 s < race_width cfg"
    and "minimal_width cfg \<le> borders1 s - borders0 s"
  shows "\<exists>s'. gen_lines cfg g i s = Inr s' \<and> rect cfg (circuit s') \<and>
           (\<forall>r. i < int r \<longrightarrow> circuit s' ! r = circuit s ! r) \<and>
           (\<forall>r. int r \<le> i \<longrightarrow> kerbs (circuit s' ! r) = [nat (borders0 s), nat (borders1 s)])"
  using assms
proof (induction cfg g i s rule: gen_lines.induct)
  case (1 cfg g i s)
  show ?case
  proof (cases "0 \<le> i")
    case False
    then show ?thesis
      using "1.prems"(1) by (subst gen_lines.simps) simp
  next
    case True
    from gen_line_straight [OF "1.prems"(1) True "1.prems"(2-10), of g] obtain s1 where
      g1: "gen_line cfg g i s = Inr s1" and r1: "rect cfg (circuit s1)" and
      b1: "borders0 s1 = borders0 s" "borders1 s1 = borders1 s" and
      d1: "directions0 s1 = 0" "directions1 s1 = 0" and
      same1: "\<And>r. r \<noteq> nat i \<Longrightarrow> circuit s1 ! r = circuit s ! r" and
      row1: "kerbs (circuit s1 ! nat i) = [nat (borders0 s), nat (borders1 s)]"
      by blast
    have "i - 1 < race_length cfg"
      using "1.prems"(2) by simp
    from "1.IH" [OF True g1 r1 this "1.prems"(3,4) d1] "1.prems"(7-10) obtain s' where
      g2: "gen_lines cfg g (i - 1) s1 = Inr s'" and r2: "rect cfg (circuit s')" and
      same2: "\<And>r. i - 1 < int r \<Longrightarrow> circuit s' ! r = circuit s1 ! r" and
      row2: "\<And>r. int r \<le> i - 1 \<Longrightarrow> kerbs (circuit s' ! r) = [nat (borders0 s), nat (borders1 s)]"
      unfolding b1 by blast
    have "gen_lines cfg g i s = Inr s'"
      using True g1 g2 by (subst gen_lines.simps) simp
    moreover have "circuit s' ! r = circuit s ! r" if "i < int r" for r
      using same2 [of r] same1 [of r] that True by simp
    moreover have "kerbs (circuit s' ! r) = [nat (borders0 s), nat (borders1 s)]"
      if r: "int r \<le> i" for r
    proof (cases "int r = i")
      case True
      then have "r = nat i" by simp
      then show ?thesis
        using same2 [of r] row1 True by simp
    next
      case False
      then show ?thesis
        using row2 [of r] r by simp
    qed
    ultimately show ?thesis
      using r2 by blast
  qed
qed

lemma straight_track:
  assumes l: "0 \<le> race_length cfg" and m: "1 \<le> minimal_width cfg"
    and w: "minimal_width cfg + 4 \<le> race_width cfg"
    and o: "race_width cfg * 3 + minimal_width cfg \<le> INT_MAX"
    and ch: "rock_chance cfg = 0" "turn_chance cfg = 0"
  shows "map_sum id (map kerbs) (track_ctor cfg g n) =
     Inr (replicate (nat (race_length cfg))
            [nat ((race_width cfg - minimal_width cfg) div 4),
             nat ((race_width cfg * 3 + minimal_width cfg) div 4)])"
proof -
  let ?b0 = "(race_width cfg - minimal_width cfg) div 4"
  let ?b1 = "(race_width cfg * 3 + minimal_width cfg) div 4"
  let ?s0 = "\<lparr>circuit = replicate (nat (race_length cfg)) (replicate (nat (race_width cfg)) (CHR 0x00)),
              borders0 = ?b0, borders1 = ?b1,
              directions0 = 0, directions1 = 0, seed = n, capped = []\<rparr>"
  have m0: "0 \<le> minimal_width cfg"
    using m by simp
  note fb = first_borders [OF m0 w]
  have "minimal_width cfg \<le> race_width cfg"
    using w by simp
  note ir = in_range [OF m0 this o]
  have g: "generate cfg g n = gen_lines cfg g (race_length cfg - 1) ?s0"
    using l m w ir by (simp add: generate_def fb)
  have r0: "rect cfg (circuit ?s0)"
    by (simp add: rect_def list_all_length)
  have "race_length cfg - 1 < race_length cfg"
    by simp
  from gen_lines_straight [OF r0 this ch, of g] fb m obtain s where
    s: "gen_lines cfg g (race_length cfg - 1) ?s0 = Inr s" and rc: "rect cfg (circuit s)" and
    rows: "\<And>r. int r \<le> race_length cfg - 1 \<Longrightarrow> kerbs (circuit s ! r) = [nat ?b0, nat ?b1]"
    by auto
  have "map kerbs (circuit s) = replicate (nat (race_length cfg)) [nat ?b0, nat ?b1]"
    using rc rows by (intro nth_equalityI) (auto simp: rect_def)
  then show ?thesis
    using g s by (simp add: track_ctor_def and_then_def)
qed


lemmas gen_evals =
  generate_def int32_def INT_MAX_def INT_MIN_def gen_lines.simps gen_line_def throw_rock_def draw_kerb_def turn_kerb_def
  turn_loop.simps put_checked_def in_circuit_def put_def and_then_def drand_def RAND_MAX_def
  digits_def signed_divide_int_def signed_modulo_int_def Let_def

lemma adjust_race80: "adjust reset 80 = Inr race80"
  by (simp add: adjust_def and_then_def reset_def race80_def signed_divide_int_def
      int32_def INT_MAX_def INT_MIN_def)

lemma adjust_duel: "adjust (reset\<lparr>players := 2\<rparr>) 80 = Inr duel"
  by (simp add: adjust_def and_then_def reset_def duel_def signed_divide_int_def
      int32_def INT_MAX_def INT_MIN_def)

lemma adjust_same:
  "race_width cfg \<noteq> 0 \<Longrightarrow> minimal_width cfg \<noteq> 0 \<Longrightarrow> adjust cfg cols = Inr cfg"
  by (simp add: adjust_def and_then_def)

subsection \<open>C1: the straight track of the scenario\<close>

text \<open>
  The claim as stated fails: with \<^verbatim>\<open>race_width\<close> 80 and \<^verbatim>\<open>minimal_width\<close> 40 the
  constructor starts the kerbs at columns \<open>(80 - 40) / 4 = 10\<close> and
  \<open>(80 * 3 + 40) / 4 = 70\<close>, a road halfway between the minimal and the maximal width, as
  its comment says, and not at columns 20 and 60. With random numbers that are all 0, each
  of the 500 lines has its kerbs at columns 10 and 70.
\<close>

theorem straight_kerbs_counterexample:
  "map_sum id (map kerbs) (track_ctor scenario zeros 0) = Inr (replicate 500 [10, 70]) \<and>
   [10, 70] \<noteq> [20, 60 :: nat]"
  using straight_track [of scenario zeros 0] by (simp add: scenario_def reset_def INT_MAX_def)

text \<open>
  Claim C1, amended. For a race with \<^verbatim>\<open>race_length\<close> 500, \<^verbatim>\<open>minimal_width\<close> 40,
  \<^verbatim>\<open>race_width\<close> 80, one player, rock chance 0 and turn chance 0, and for every sequence
  of random numbers, the constructor returns a track of 500 lines, and the kerbs of every
  line are exactly the cells at column 10 and at column 70.
\<close>

theorem straight_kerbs:
  "map_sum id (map kerbs) (track_ctor scenario g n) = Inr (replicate 500 [10, 70])"
  using straight_track [of scenario g n] by (simp add: scenario_def reset_def INT_MAX_def)

subsection \<open>C6: two kerbs on every line\<close>

text \<open>
  The claim as stated fails. The constructor tests the width of the road after it has
  drawn the line (\<^verbatim>\<open>if(borders[1]-borders[0] < settings.minimal_width)\<close>) and then turns
  the kerbs outwards for the next line. A road of exactly the minimal width passes the
  test, so both kerbs may turn inwards, and the next line is 2 narrower than the minimal
  width. In this race of three lines with minimal width 10 the kerbs are at 1 and 13, at 2
  and 12 and, on line 0, at 3 and 11: a road of width 8. No loop of the run stops on its
  fifth try (\<open>capped\<close> is empty): each makes one try or none.
\<close>

theorem two_kerbs_counterexample:
  "map_sum id kerb_columns (generate narrow swerve 0) = Inr ([3, 11] # [2, 12] # [1, 13] # []) \<and>
   map_sum id capped (generate narrow swerve 0) = Inr [] \<and>
   minimal_width narrow = 10"
  apply (simp add: gen_evals narrow_def reset_def swerve_def kerb_columns_def)
  apply (simp add: eval_nat_numeral kerbs_def is_kerb_def upt_rec)
  done

text \<open>
  Claim C6, amended. For every configuration with \<open>3 \<le> minimal_width\<close>,
  \<open>minimal_width + 4 \<le> race_width\<close>, a width small enough for the initial borders to be
  computed in \<^verbatim>\<open>int\<close> (\<open>race_width * 3 + minimal_width \<le> INT_MAX\<close>) and a length that is
  not negative, and for every sequence of random numbers: the constructor returns a track
  of \<^verbatim>\<open>race_length\<close> lines;
  every line holds exactly two kerb cells, the left one at a smaller column than the right
  one; and the width of the road (right - left) is at least \<open>minimal_width - 2\<close> on every
  line, whether or not a loop has used its five tries.
\<close>

theorem two_kerbs_per_row:
  assumes "0 \<le> race_length cfg" and "3 \<le> minimal_width cfg"
    and "minimal_width cfg + 4 \<le> race_width cfg"
    and "race_width cfg * 3 + minimal_width cfg \<le> INT_MAX"
  shows "\<exists>c. track_ctor cfg g n = Inr c \<and> length c = nat (race_length cfg) \<and>
           list_all (two_kerbs (minimal_width cfg)) c"
proof -
  have "2 \<le> minimal_width cfg"
    using assms(2) by simp
  from generate_steps [OF assms(1) this assms(3) assms(4), of g n] assms(2) obtain s where
    "generate cfg g n = Inr s" and "rect cfg (circuit s)"
    and "list_all (two_kerbs (minimal_width cfg)) (circuit s)"
    by blast
  then show ?thesis
    by (simp add: track_ctor_def and_then_def rect_def)
qed

theorem two_kerbs_per_row_witness:
  "0 \<le> race_length narrow \<and> 3 \<le> minimal_width narrow \<and>
   minimal_width narrow + 4 \<le> race_width narrow \<and>
   race_width narrow * 3 + minimal_width narrow \<le> INT_MAX \<and>
   (\<exists>c. track_ctor narrow swerve 0 = Inr c \<and> length c = nat (race_length narrow) \<and>
        list_all (two_kerbs (minimal_width narrow)) c)"
proof -
  have a: "0 \<le> race_length narrow" and b: "3 \<le> minimal_width narrow"
    and c: "minimal_width narrow + 4 \<le> race_width narrow"
    and d: "race_width narrow * 3 + minimal_width narrow \<le> INT_MAX"
    by (simp_all add: narrow_def reset_def INT_MAX_def)
  from two_kerbs_per_row [OF a b c d, of swerve 0] a b c d show ?thesis
    by (intro conjI)
qed

subsection \<open>C9: the check of the configuration\<close>

text \<open>
  What the constructor does as the claim says. The assertion is tested once, before any
  line is generated, and a minimal width above the width fails it, whatever the random
  numbers are; the constructor of the game passes the failure on. A configuration that
  leaves two columns on each side of a road of the minimal width, with a width small
  enough for the initial borders to be computed in \<^verbatim>\<open>int\<close>, gives a track.
\<close>

lemma generate_assertion:
  assumes "0 \<le> race_length cfg" and "0 \<le> race_width cfg"
    and "race_width cfg < minimal_width cfg"
  shows "generate cfg g n = Inl AssertionFailed"
  using assms by (simp add: generate_def)

lemma track_ctor_assertion:
  assumes "0 \<le> race_length cfg" and "0 \<le> race_width cfg"
    and "race_width cfg < minimal_width cfg"
  shows "track_ctor cfg g n = Inl AssertionFailed"
  using generate_assertion [OF assms] by (simp add: track_ctor_def and_then_def)

lemma game_ctor_assertion:
  assumes "0 \<le> race_length cfg" and "0 < race_width cfg"
    and "race_width cfg < minimal_width cfg" and "1 \<le> players cfg"
  shows "game_ctor cfg rows cols g = Inl AssertionFailed"
proof -
  have a: "adjust cfg cols = Inr cfg"
    using assms by (intro adjust_same) simp_all
  have f: "generate cfg g 0 = Inl AssertionFailed"
    using assms by (intro generate_assertion) simp_all
  obtain k ks where s: "seats cfg = k # ks"
    using assms by (cases "seats cfg") (simp_all add: seats_def)
  show ?thesis
    by (simp add: game_ctor_def a track_ctor_def f s and_then_def)
qed

lemma track_ctor_returns:
  assumes "0 \<le> race_length cfg" and "2 \<le> minimal_width cfg"
    and "minimal_width cfg + 4 \<le> race_width cfg"
    and "race_width cfg * 3 + minimal_width cfg \<le> INT_MAX"
  shows "\<exists>c. track_ctor cfg g n = Inr c \<and> rect cfg c"
proof -
  from generate_steps [OF assms, of g n] obtain s where
    "generate cfg g n = Inr s" and "rect cfg (circuit s)"
    by blast
  then show ?thesis
    by (simp add: track_ctor_def and_then_def)
qed

text \<open>
  Claim C9 says that generation succeeds for a valid configuration, one that passes the
  check \<open>minimal_width \<le> race_width\<close>. The constructor means to keep the kerbs on the
  track: the loop turns a kerb again when there is ``no space'', and ``a sanity check''
  straightens a kerb that would reach the edge. Both compare \<open>border + direction\<close> with
  the edge, column 0 on the left, and so miss a kerb that starts on the edge. For two
  players on a terminal of 80 columns the constructor of the game sets \<^verbatim>\<open>race_width\<close>
  to 40 and \<^verbatim>\<open>minimal_width\<close> to 38, which passes the assertion. The left kerb starts at
  column \<open>(40 - 38) / 4 = 0\<close>; with random numbers that are all 0 it turns left after the
  first line, and on the second line the kerb is written at column -1, outside the
  vector. The race neither starts nor fails its check.
\<close>

theorem duel_kerb_leaves_track:
  "adjust (reset\<lparr>players := 2\<rparr>) 80 = Inr duel \<and>
   minimal_width duel \<le> race_width duel \<and>
   track_ctor duel zeros 0 = Inl (OutOfBounds ''track::track'') \<and>
   game_ctor (reset\<lparr>players := 2\<rparr>) 24 80 zeros = Inl (OutOfBounds ''track::track'')"
proof -
  have a: "adjust (reset\<lparr>players := 2\<rparr>) 80 = Inr duel"
    by (simp add: adjust_def and_then_def reset_def duel_def signed_divide_int_def
        int32_def INT_MAX_def INT_MIN_def)
  have m: "minimal_width duel \<le> race_width duel"
    by (simp add: duel_def)
  have t: "track_ctor duel zeros 0 = Inl (OutOfBounds ''track::track'')"
    by (simp add: track_ctor_def gen_evals duel_def reset_def zeros_def)
  have sh: "shared_track duel"
    by (simp add: duel_def reset_def)
  have "game_ctor (reset\<lparr>players := 2\<rparr>) 24 80 zeros = Inl (OutOfBounds ''track::track'')"
    by (simp add: game_ctor_def a sh t and_then_def)
  with a m t show ?thesis
    by (intro conjI)
qed


subsection \<open>The characters of a generated track\<close>

text \<open>
  Every character of a generated track is a blank, a digit, a rock or a kerb; so a track
  from the constructor holds no car character when that is none of these.
\<close>

lemma put_checked_terrain:
  assumes "put_checked f c i j v = Inr c'" and "terrain v" and "list_all terrain (c ! nat i)"
  shows "list_all terrain (c' ! nat i)" and "r \<noteq> nat i \<Longrightarrow> c' ! r = c ! r"
    and "length c' = length c"
proof -
  from assms(1) have ic: "in_circuit c i j" and c': "c' = put c i j v"
    by (simp_all add: put_checked_def split: if_splits)
  show "r \<noteq> nat i \<Longrightarrow> c' ! r = c ! r" and "length c' = length c"
    by (simp_all add: c' put_def)
  from ic have "nat i < length c"
    by (auto simp: in_circuit_def)
  then have "c' ! nat i = (c ! nat i)[nat j := v]"
    by (simp add: c' put_def)
  then show "list_all terrain (c' ! nat i)"
    using assms(2,3) by (auto simp: list_all_iff dest!: subsetD [OF set_update_subset_insert])
qed

lemma kerb_terrain: "terrain (CHR ''|'')" "terrain (CHR ''/'')" "terrain (CHR 0x5C)"
  "terrain (CHR ''*'')" "terrain (CHR '' '')"
  by (simp_all add: terrain_def is_kerb_def)

lemma digit_terrain: "0 \<le> i \<Longrightarrow> terrain (digits ! nat (i smod 10))"
proof -
  assume "0 \<le> i"
  then have "i smod 10 = i mod 10"
    by (cases "i = 0") (simp_all add: signed_modulo_int_def)
  moreover have "nat (i mod 10) < length digits"
    by (simp add: digits_def)
  ultimately show ?thesis
    by (simp add: terrain_def)
qed

lemma draw_kerb_terrain:
  assumes "draw_kerb c i b d = Inr c'" and "list_all terrain (c ! nat i)"
  shows "list_all terrain (c' ! nat i)" and "r \<noteq> nat i \<Longrightarrow> c' ! r = c ! r"
    and "length c' = length c"
proof -
  consider "d = 0" | "d = 1" | "d = - 1" | "d \<noteq> 0 \<and> d \<noteq> 1 \<and> d \<noteq> - 1"
    by blast
  then have "list_all terrain (c' ! nat i) \<and> (r \<noteq> nat i \<longrightarrow> c' ! r = c ! r) \<and>
      length c' = length c"
  proof cases
    case 1
    then have "put_checked ''track::track'' c i b (CHR ''|'') = Inr c'"
      using assms(1) by (simp add: draw_kerb_def)
    from put_checked_terrain [OF this kerb_terrain(1) assms(2)] show ?thesis
      by simp
  next
    case 2
    then have "put_checked ''track::track'' c i b (CHR ''/'') = Inr c'"
      using assms(1) by (simp add: draw_kerb_def)
    from put_checked_terrain [OF this kerb_terrain(2) assms(2)] show ?thesis
      by simp
  next
    case 3
    then have "put_checked ''track::track'' c i b (CHR 0x5C) = Inr c'"
      using assms(1) by (simp add: draw_kerb_def)
    from put_checked_terrain [OF this kerb_terrain(3) assms(2)] show ?thesis
      by simp
  next
    case 4
    then show ?thesis
      using assms by (simp add: draw_kerb_def)
  qed
  then show "list_all terrain (c' ! nat i)" and "r \<noteq> nat i \<Longrightarrow> c' ! r = c ! r"
    and "length c' = length c"
    by simp_all
qed

lemma throw_rock_terrain:
  assumes "throw_rock cfg g i c n = Inr (c', n')" and "list_all terrain (c ! nat i)"
  shows "list_all terrain (c' ! nat i)" and "r \<noteq> nat i \<Longrightarrow> c' ! r = c ! r"
    and "length c' = length c"
proof -
  have "list_all terrain (c' ! nat i) \<and> (r \<noteq> nat i \<longrightarrow> c' ! r = c ! r) \<and> length c' = length c"
  proof (cases "drand g n < rock_chance cfg")
    case False
    then show ?thesis
      using assms by (simp add: throw_rock_def)
  next
    case True
    then have "put_checked ''track::track'' c i (int (g (n + 1)) smod race_width cfg) (CHR ''*'')
        = Inr c'"
      using assms(1) by (auto simp: throw_rock_def and_then_def split: if_splits sum.splits)
    from put_checked_terrain [OF this kerb_terrain(4) assms(2)] show ?thesis
      by simp
  qed
  then show "list_all terrain (c' ! nat i)" and "r \<noteq> nat i \<Longrightarrow> c' ! r = c ! r"
    and "length c' = length c"
    by simp_all
qed

lemma gen_line_terrain:
  assumes g: "gen_line cfg g i s = Inr s'" and i: "0 \<le> i"
  shows "list_all terrain (circuit s' ! nat i)"
    and "r \<noteq> nat i \<Longrightarrow> circuit s' ! r = circuit s ! r"
    and "length (circuit s') = length (circuit s)"
proof -
  let ?c0 = "(circuit s)[nat i := replicate (length (circuit s ! nat i)) (CHR '' '')]"
  from g obtain c1 c2 n1 c3 c4 where
    p1: "put_checked ''track::track'' ?c0 i 0 (digits ! nat (i smod 10)) = Inr c1" and
    p2: "throw_rock cfg g i c1 (seed s) = Inr (c2, n1)" and
    p3: "draw_kerb c2 i (borders0 s + directions0 s) (directions0 s) = Inr c3" and
    p4: "draw_kerb c3 i (borders1 s + directions1 s) (directions1 s) = Inr c4" and
    c4: "circuit s' = c4"
    by (auto simp: gen_line_def and_then_def Let_def split: sum.splits prod.splits)
  from p1 have "in_circuit ?c0 i 0"
    by (simp add: put_checked_def split: if_splits)
  then have li: "nat i < length (circuit s)"
    by (auto simp: in_circuit_def)
  then have t0: "list_all terrain (?c0 ! nat i)"
    by (simp add: list_all_iff kerb_terrain(5))
  note a1 = put_checked_terrain [OF p1 digit_terrain [OF i] t0]
  note a2 = throw_rock_terrain [OF p2 a1(1)]
  note a3 = draw_kerb_terrain [OF p3 a2(1)]
  note a4 = draw_kerb_terrain [OF p4 a3(1)]
  show "list_all terrain (circuit s' ! nat i)"
    using a4(1) by (simp add: c4)
  show "circuit s' ! r = circuit s ! r" if "r \<noteq> nat i"
    using that a1(2) [of r] a2(2) [of r] a3(2) [of r] a4(2) [of r] by (simp add: c4)
  show "length (circuit s') = length (circuit s)"
    using a1(3) a2(3) a3(3) a4(3) by (simp add: c4)
qed

lemma gen_lines_terrain:
  assumes "gen_lines cfg g i s = Inr s'"
    and "\<And>r. i < int r \<Longrightarrow> r < length (circuit s) \<Longrightarrow> list_all terrain (circuit s ! r)"
  shows "list_all (list_all terrain) (circuit s')"
  using assms
proof (induction cfg g i s rule: gen_lines.induct)
  case (1 cfg g i s)
  show ?case
  proof (cases "0 \<le> i")
    case False
    then have "s' = s"
      using "1.prems"(1) by (subst (asm) gen_lines.simps) simp
    then show ?thesis
      using "1.prems"(2) False by (simp add: list_all_length)
  next
    case True
    from "1.prems"(1) True obtain s1 where g1: "gen_line cfg g i s = Inr s1"
      and g2: "gen_lines cfg g (i - 1) s1 = Inr s'"
      by (subst (asm) gen_lines.simps) (auto split: sum.splits)
    note t = gen_line_terrain [OF g1 True]
    show ?thesis
    proof (rule "1.IH" [OF True g1 g2])
      fix r assume r: "i - 1 < int r" "r < length (circuit s1)"
      show "list_all terrain (circuit s1 ! r)"
      proof (cases "r = nat i")
        case True
        then show ?thesis
          using t(1) by simp
      next
        case False
        then have "i < int r"
          using r(1) by auto
        then show ?thesis
          using "1.prems"(2) [of r] t(2) [OF False] t(3) r(2) by simp
      qed
    qed
  qed
qed

lemma track_ctor_terrain:
  assumes "track_ctor cfg g n = Inr c"
  shows "list_all (list_all terrain) c"
proof -
  from assms obtain s where s: "generate cfg g n = Inr s" and c: "c = circuit s"
    by (auto simp: track_ctor_def and_then_def split: sum.splits)
  from s have l: "0 \<le> race_length cfg"
    and "gen_lines cfg g (race_length cfg - 1)
      \<lparr>circuit = replicate (nat (race_length cfg)) (replicate (nat (race_width cfg)) (CHR 0x00)),
       borders0 = (race_width cfg - minimal_width cfg) sdiv 4,
       borders1 = (race_width cfg * 3 + minimal_width cfg) sdiv 4,
       directions0 = 0, directions1 = 0, seed = n, capped = []\<rparr> = Inr s"
    by (simp_all add: generate_def split: if_splits)
  from gen_lines_terrain [OF this(2)] l show ?thesis
    by (simp add: c)
qed

lemma track_ctor_unmarked:
  assumes "track_ctor cfg g n = Inr c" and "\<not> terrain (character cfg)"
  shows "unmarked cfg c"
  using track_ctor_terrain [OF assms(1)] assms(2)
  by (auto simp: unmarked_def list_all_iff)

lemma caret_no_terrain: "\<not> terrain (CHR ''^'')"
  by (simp add: terrain_def digits_def is_kerb_def)

section \<open>Properties of a shared race\<close>


lemma same_shape_lengths:
  assumes "same_shape c c'"
  shows "length c' = length c" and "r < length c \<Longrightarrow> length (c' ! r) = length (c ! r)"
proof -
  show l: "length c' = length c"
    using assms unfolding same_shape_def by (metis length_map)
  show "length (c' ! r) = length (c ! r)" if "r < length c"
    using assms that l unfolding same_shape_def by (metis nth_map)
qed

lemma map_cells_cong:
  assumes s: "same_shape c c'"
    and e: "\<And>i j. in_circuit c i j \<Longrightarrow> f (cell c' i j) = f (cell c i j)"
  shows "map (map f) c' = map (map f) c"
proof (rule nth_equalityI)
  show "length (map (map f) c') = length (map (map f) c)"
    using same_shape_lengths(1) [OF s] by simp
  fix r assume "r < length (map (map f) c')"
  then have r: "r < length c"
    using same_shape_lengths(1) [OF s] by simp
  have lr: "length (c' ! r) = length (c ! r)"
    using same_shape_lengths(2) [OF s r] .
  have "map f (c' ! r) = map f (c ! r)"
  proof (rule nth_equalityI)
    show "length (map f (c' ! r)) = length (map f (c ! r))"
      using lr by simp
    fix k assume "k < length (map f (c' ! r))"
    then have k: "k < length (c ! r)"
      using lr by simp
    have "in_circuit c (int r) (int k)"
      using r k by (simp add: in_circuit_def)
    from e [OF this] show "map f (c' ! r) ! k = map f (c ! r) ! k"
      using k lr by (simp add: cell_def)
  qed
  then show "map (map f) c' ! r = map (map f) c ! r"
    using r same_shape_lengths(1) [OF s] by simp
qed

lemma erase_mark: "track_mark cfg c y x img = Inr c' \<Longrightarrow> erase cfg c' = erase cfg c"
  unfolding erase_def
  by (rule map_cells_cong [OF track_mark_spec(1)], assumption)
     (simp add: track_mark_spec(2))

lemma erase_unmark: "track_unmark cfg c y x img = Inr c' \<Longrightarrow> erase cfg c' = erase cfg c"
  unfolding erase_def
  by (rule map_cells_cong [OF track_unmark_spec(1)], assumption)
     (simp add: track_unmark_spec(2))

lemma erase_unmarked: "unmarked cfg c \<Longrightarrow> erase cfg c = c"
  unfolding erase_def unmarked_def
  by (intro map_idI) (auto simp: list_all_iff)

lemma no_glyphs_unmarked: "glyphs cfg c = {} \<Longrightarrow> unmarked cfg c"
proof -
  assume g: "glyphs cfg c = {}"
  have "c ! r ! k \<noteq> character cfg" if "r < length c" and "k < length (c ! r)" for r k
  proof -
    have "in_circuit c (int r) (int k)"
      using that by (simp add: in_circuit_def)
    moreover have "(int r, int k) \<notin> glyphs cfg c"
      using g by simp
    ultimately show ?thesis
      by (simp add: glyphs_def cell_def)
  qed
  then show ?thesis
    by (simp add: unmarked_def list_all_length)
qed

lemma glyphs_mark:
  assumes "track_mark cfg c y x img = Inr c'"
  shows "glyphs cfg c' \<subseteq> glyphs cfg c \<union> set (footprint y x (dots img))"
  using track_mark_spec(2) [OF assms] same_shape_in_circuit [OF track_mark_spec(1) [OF assms]]
  by (auto simp: glyphs_def split: if_splits)

lemma glyphs_unmark:
  assumes "track_unmark cfg c y x img = Inr c'" and "character cfg \<noteq> CHR '' ''"
  shows "glyphs cfg c' \<subseteq> glyphs cfg c - set (footprint y x (dots img))"
  using track_unmark_spec(2) [OF assms(1)] assms(2)
    same_shape_in_circuit [OF track_unmark_spec(1) [OF assms(1)]]
  by (auto simp: glyphs_def split: if_splits)

lemma fits_mark: "track_mark cfg c y x img = Inr c' \<Longrightarrow> fits c (footprint y x (dots img))"
  by (simp add: track_mark_def mark_dots_fits)

lemma fits_unmark: "track_unmark cfg c y x img = Inr c' \<Longrightarrow> fits c (footprint y x (dots img))"
  by (simp add: track_unmark_def unmark_dots_fits)

lemma marked_by_mark:
  assumes m: "track_mark cfg c (pos_y p) (pos_x p) (car p) = Inr c'"
    and ch: "character cfg \<noteq> CHR '' ''"
  shows "marked c' p"
proof -
  have "in_circuit c' i j \<and> cell c' i j \<noteq> CHR '' ''" if "(i, j) \<in> set (spot p)" for i j
  proof -
    have ic: "in_circuit c i j"
      using fits_mark [OF m] that by (auto simp: fits_def list_all_iff spot_def)
    then show ?thesis
      using track_mark_spec(2) [OF m ic] same_shape_in_circuit [OF track_mark_spec(1) [OF m]] ch
        that
      by (auto simp: spot_def)
  qed
  then show ?thesis
    by (auto simp: marked_def list_all_iff)
qed

lemma marked_kept:
  assumes m: "track_mark cfg c y x img = Inr c'" and p: "marked c p"
  shows "marked c' p"
proof -
  have "in_circuit c' i j \<and> cell c' i j \<noteq> CHR '' ''" if "(i, j) \<in> set (spot p)" for i j
  proof -
    have ic: "in_circuit c i j" and nb: "cell c i j \<noteq> CHR '' ''"
      using p that by (auto simp: marked_def list_all_iff)
    then show ?thesis
      using track_mark_spec(2) [OF m ic] same_shape_in_circuit [OF track_mark_spec(1) [OF m]]
      by simp
  qed
  then show ?thesis
    by (auto simp: marked_def list_all_iff)
qed

lemma cleared_by_unmark:
  assumes m: "track_unmark cfg c (pos_y p) (pos_x p) (car p) = Inr c'"
    and ch: "character cfg \<noteq> CHR '' ''"
  shows "cleared cfg c' p"
proof -
  have "in_circuit c' i j \<and> cell c' i j \<noteq> character cfg" if "(i, j) \<in> set (spot p)" for i j
  proof -
    have ic: "in_circuit c i j"
      using fits_unmark [OF m] that by (auto simp: fits_def list_all_iff spot_def)
    then show ?thesis
      using track_unmark_spec(2) [OF m ic] same_shape_in_circuit [OF track_unmark_spec(1) [OF m]]
        ch that
      by (auto simp: spot_def)
  qed
  then show ?thesis
    by (auto simp: cleared_def list_all_iff)
qed



lemma for_each_invariant:
  assumes "for_each is f s = Inr s'" and "P s"
    and "\<And>i s s'. i \<in> set is \<Longrightarrow> P s \<Longrightarrow> f i s = Inr s' \<Longrightarrow> P s'"
  shows "P s'"
  using assms
proof (induction "is" arbitrary: s)
  case Nil
  then show ?case by simp
next
  case (Cons i "is")
  from Cons.prems(1) obtain s1 where f: "f i s = Inr s1" and r: "for_each is f s1 = Inr s'"
    by (auto split: sum.splits)
  have "P s1"
    using Cons.prems(3) [of i s s1] Cons.prems(2) f by simp
  moreover have "\<And>j s s'. j \<in> set is \<Longrightarrow> P s \<Longrightarrow> f j s = Inr s' \<Longrightarrow> P s'"
    using Cons.prems(3) by (meson list.set_intros(2))
  ultimately show ?case
    using Cons.IH [OF r] by blast
qed

text \<open>The two calls on the one track of a shared race.\<close>

lemma mark_position_shared:
  assumes "shared_game cfg gm" and "mark_position cfg i gm = Inr gm'"
  shows "i < length (handlers gm)"
    and "\<exists>c'. track_mark cfg (tracks gm ! 0) (pos_y (handlers gm ! i)) (pos_x (handlers gm ! i))
                (car (handlers gm ! i)) = Inr c' \<and> gm' = gm\<lparr>tracks := [c']\<rparr>"
proof -
  from assms(2) have s: "seated gm i"
    by (simp add: mark_position_def split: if_splits)
  then show i: "i < length (handlers gm)"
    by (simp add: seated_def)
  have c: "course (handlers gm ! i) = 0"
    using assms(1) i by (simp add: shared_game_def list_all_length)
  obtain t where t: "tracks gm = [t]"
    using assms(1) by (cases "tracks gm") (simp_all add: shared_game_def)
  show "\<exists>c'. track_mark cfg (tracks gm ! 0) (pos_y (handlers gm ! i)) (pos_x (handlers gm ! i))
                (car (handlers gm ! i)) = Inr c' \<and> gm' = gm\<lparr>tracks := [c']\<rparr>"
    using assms(2) s c t
    by (auto simp: mark_position_def and_then_def Let_def split: sum.splits)
qed

lemma unmark_position_shared:
  assumes "shared_game cfg gm" and "unmark_position cfg i gm = Inr gm'"
  shows "i < length (handlers gm)"
    and "\<exists>c'. track_unmark cfg (tracks gm ! 0) (pos_y (handlers gm ! i)) (pos_x (handlers gm ! i))
                (car (handlers gm ! i)) = Inr c' \<and> gm' = gm\<lparr>tracks := [c']\<rparr>"
proof -
  from assms(2) have s: "seated gm i"
    by (simp add: unmark_position_def split: if_splits)
  then show i: "i < length (handlers gm)"
    by (simp add: seated_def)
  have c: "course (handlers gm ! i) = 0"
    using assms(1) i by (simp add: shared_game_def list_all_length)
  obtain t where t: "tracks gm = [t]"
    using assms(1) by (cases "tracks gm") (simp_all add: shared_game_def)
  show "\<exists>c'. track_unmark cfg (tracks gm ! 0) (pos_y (handlers gm ! i)) (pos_x (handlers gm ! i))
                (car (handlers gm ! i)) = Inr c' \<and> gm' = gm\<lparr>tracks := [c']\<rparr>"
    using assms(2) s c t
    by (auto simp: unmark_position_def and_then_def Let_def split: sum.splits)
qed

lemma spot_in_spots: "i < length (handlers gm) \<Longrightarrow> set (spot (handlers gm ! i)) \<subseteq> spots gm"
  by (auto simp: spots_def)

lemma reverting_mark:
  assumes r: "reverting cfg c0 gm" and m: "mark_position cfg i gm = Inr gm'"
  shows "reverting cfg c0 gm'" and "handlers gm' = handlers gm" and "alive gm' = alive gm"
    and "clock gm' = clock gm"
    and "character cfg \<noteq> CHR '' '' \<Longrightarrow> marked (tracks gm' ! 0) (handlers gm ! i)"
    and "marked (tracks gm ! 0) p \<Longrightarrow> marked (tracks gm' ! 0) p"
proof -
  let ?p = "handlers gm ! i"
  from r have sg: "shared_game cfg gm" and e: "erase cfg (tracks gm ! 0) = c0"
    and g: "glyphs cfg (tracks gm ! 0) \<subseteq> spots gm"
    by (simp_all add: reverting_def)
  from mark_position_shared [OF sg m] obtain c' where i: "i < length (handlers gm)"
    and t: "track_mark cfg (tracks gm ! 0) (pos_y ?p) (pos_x ?p) (car ?p) = Inr c'"
    and gm': "gm' = gm\<lparr>tracks := [c']\<rparr>"
    by blast
  show "handlers gm' = handlers gm" and "alive gm' = alive gm" and "clock gm' = clock gm"
    by (simp_all add: gm')
  have "glyphs cfg c' \<subseteq> spots gm"
    using glyphs_mark [OF t] g spot_in_spots [OF i] by (auto simp: spot_def)
  then show "reverting cfg c0 gm'"
    using sg e erase_mark [OF t] by (simp add: reverting_def gm' shared_game_def spots_def)
  show "marked (tracks gm' ! 0) ?p" if "character cfg \<noteq> CHR '' ''"
    using marked_by_mark [OF t that] by (simp add: gm')
  show "marked (tracks gm' ! 0) p" if "marked (tracks gm ! 0) p"
    using marked_kept [OF t that] by (simp add: gm')
qed

lemma reverting_unmark:
  assumes r: "reverting cfg c0 gm" and m: "unmark_position cfg i gm = Inr gm'"
    and ch: "character cfg \<noteq> CHR '' ''"
  shows "reverting cfg c0 gm'" and "handlers gm' = handlers gm" and "alive gm' = alive gm"
    and "clock gm' = clock gm"
    and "cleared cfg (tracks gm' ! 0) (handlers gm ! i)"
    and "glyphs cfg (tracks gm' ! 0) \<subseteq> glyphs cfg (tracks gm ! 0) - set (spot (handlers gm ! i))"
proof -
  let ?p = "handlers gm ! i"
  from r have sg: "shared_game cfg gm" and e: "erase cfg (tracks gm ! 0) = c0"
    and g: "glyphs cfg (tracks gm ! 0) \<subseteq> spots gm"
    by (simp_all add: reverting_def)
  from unmark_position_shared [OF sg m] obtain c' where i: "i < length (handlers gm)"
    and t: "track_unmark cfg (tracks gm ! 0) (pos_y ?p) (pos_x ?p) (car ?p) = Inr c'"
    and gm': "gm' = gm\<lparr>tracks := [c']\<rparr>"
    by blast
  show "handlers gm' = handlers gm" and "alive gm' = alive gm" and "clock gm' = clock gm"
    by (simp_all add: gm')
  show sub: "glyphs cfg (tracks gm' ! 0) \<subseteq> glyphs cfg (tracks gm ! 0) - set (spot ?p)"
    using glyphs_unmark [OF t ch] by (simp add: gm' spot_def)
  then have "glyphs cfg c' \<subseteq> spots gm"
    using g by (auto simp: gm')
  then show "reverting cfg c0 gm'"
    using sg e erase_unmark [OF t] by (simp add: reverting_def gm' shared_game_def spots_def)
  show "cleared cfg (tracks gm' ! 0) ?p"
    using cleared_by_unmark [OF t ch] by (simp add: gm')
qed

text \<open>The tick of a player leaves the pointer to the track and the car as they are.\<close>

lemma player_tick_course:
  assumes "player_tick cfg c p t = Inr (q, s)"
  shows "course q = course p" and "car q = car p"
proof -
  have "course q = course p \<and> car q = car p"
  proof (cases "may_move cfg p t")
    case False
    then show ?thesis
      using assms by (simp add: player_tick_def split: if_splits)
  next
    case True
    then have "after_move cfg c (move cfg p t) = Inr (q, s)"
      using assms by (simp add: player_tick_def split: if_splits)
    then have "course q = course (move cfg p t) \<and> car q = car (move cfg p t)"
      by (auto simp: after_move_def and_then_def split: if_splits sum.splits)
    then show ?thesis
      by (simp add: move_def Let_def)
  qed
  then show "course q = course p" and "car q = car p"
    by simp_all
qed

lemma tick_player_shared:
  assumes sg: "shared_game cfg g" and i: "i < length (handlers g)"
    and t: "tick_player cfg i (g, b) = Inr (g', b')"
  shows "\<exists>q s. player_tick cfg (tracks g ! 0) (handlers g ! i) (clock g) = Inr (q, s) \<and>
           g' = g\<lparr>handlers := (handlers g)[i := q], alive := (alive g)[i := s]\<rparr> \<and>
           course q = 0"
proof -
  have c: "course (handlers g ! i) = 0"
    using sg i by (simp add: shared_game_def list_all_length)
  from t obtain q s where
    p: "player_tick cfg (tracks g ! 0) (handlers g ! i) (clock g) = Inr (q, s)" and
    g': "g' = g\<lparr>handlers := (handlers g)[i := q], alive := (alive g)[i := s]\<rparr>"
    by (auto simp: tick_player_def and_then_def Let_def c split: sum.splits)
  then show ?thesis
    using player_tick_course(1) [OF p] c by auto
qed

lemma spots_update:
  assumes "i < length hs"
  shows "(\<Union>j \<in> {..< length hs}. set (spot (hs ! j))) - set (spot (hs ! i))
         \<subseteq> (\<Union>j \<in> {..< length (hs[i := q])}. set (spot (hs[i := q] ! j)))"
proof
  fix x assume "x \<in> (\<Union>j \<in> {..< length hs}. set (spot (hs ! j))) - set (spot (hs ! i))"
  then obtain j where j: "j < length hs" "x \<in> set (spot (hs ! j))" and "x \<notin> set (spot (hs ! i))"
    by auto
  then have "j \<noteq> i"
    by auto
  then have "hs[i := q] ! j = hs ! j"
    by simp
  then show "x \<in> (\<Union>j \<in> {..< length (hs[i := q])}. set (spot (hs[i := q] ! j)))"
    using j by (intro UN_I [of j]) simp_all
qed

lemma reverting_turn:
  assumes sh: "shared_track cfg" and ch: "character cfg \<noteq> CHR '' ''"
    and r: "reverting cfg c0 g" and t: "turn_of cfg i (g, b) = Inr (g', b')"
  shows "reverting cfg c0 g'"
proof -
  from t have s: "seated g i"
    by (simp add: turn_of_def split: if_splits)
  then have i: "i < length (handlers g)"
    by (simp add: seated_def)
  show ?thesis
  proof (cases "alive g ! i")
    case False
    then show ?thesis
      using t s r by (simp add: turn_of_def)
  next
    case True
    from t s True sh obtain g1 g2 where
      u: "unmark_position cfg i g = Inr g1" and
      k: "tick_player cfg i (g1, b) = Inr (g2, b')" and
      m: "mark_position cfg i g2 = Inr g'"
      by (auto simp: turn_of_def and_then_def split: sum.splits)
    note r1 = reverting_unmark [OF r u ch]
    have sg1: "shared_game cfg g1"
      using r1(1) by (simp add: reverting_def)
    have i1: "i < length (handlers g1)"
      using i r1(2) by simp
    from tick_player_shared [OF sg1 i1 k] obtain q s where
      g2: "g2 = g1\<lparr>handlers := (handlers g1)[i := q], alive := (alive g1)[i := s]\<rparr>" and
      cq: "course q = 0"
      by blast
    have "reverting cfg c0 g2"
    proof -
      have "shared_game cfg g2"
        using sg1 cq i1 unfolding g2 shared_game_def
        by (auto simp: list_all_length nth_list_update)
      moreover have "erase cfg (tracks g2 ! 0) = c0"
        using r1(1) by (simp add: reverting_def g2)
      moreover have "glyphs cfg (tracks g2 ! 0) \<subseteq> spots g2"
      proof -
        have "glyphs cfg (tracks g1 ! 0) \<subseteq> spots g - set (spot (handlers g ! i))"
          using r1(6) r by (auto simp: reverting_def)
        also have "\<dots> \<subseteq> spots g2"
          using spots_update [OF i, of q] by (simp add: spots_def g2 r1(2))
        finally show ?thesis
          by (simp add: g2)
      qed
      ultimately show ?thesis
        by (simp add: reverting_def)
    qed
    from reverting_mark(1) [OF this m] show ?thesis .
  qed
qed



lemma unmarked_no_glyphs: "unmarked cfg c \<Longrightarrow> glyphs cfg c = {}"
  by (auto simp: unmarked_def glyphs_def in_circuit_def cell_def list_all_length)

lemma parse_input_same:
  "course (parse_input p k) = course p" "spot (parse_input p k) = spot p"
  by (simp_all add: parse_input_def spot_def Let_def)

lemma reverting_press:
  assumes r: "reverting cfg c0 gm" and p: "press cfg k gm = Inr gm'"
  shows "reverting cfg c0 gm'"
proof -
  let ?hs = "map (\<lambda>i. if i < nat (players cfg) then parse_input (handlers gm ! i) k
                        else handlers gm ! i) [0 ..< length (handlers gm)]"
  from p have t: "tracks gm' = tracks gm" and h: "handlers gm' = ?hs"
    and a: "length (alive gm') = length (alive gm)"
    by (auto simp: press_def split: if_splits)
  have c: "course (?hs ! j) = course (handlers gm ! j)"
    and s: "spot (?hs ! j) = spot (handlers gm ! j)" if "j < length (handlers gm)" for j
    using that by (simp_all add: parse_input_same)
  have "shared_game cfg gm'"
    using r c unfolding reverting_def shared_game_def t h a
    by (simp add: list_all_length)
  moreover have "spots gm' = spots gm"
    unfolding spots_def h using s by simp
  ultimately show ?thesis
    using r by (simp add: reverting_def t)
qed

lemma mark_alive_pass:
  assumes "for_each is (mark_alive cfg) g = Inr g'" and "reverting cfg c0 g"
    and ch: "character cfg \<noteq> CHR '' ''"
  shows "reverting cfg c0 g' \<and> handlers g' = handlers g \<and> alive g' = alive g \<and>
         clock g' = clock g \<and>
         (\<forall>p. marked (tracks g ! 0) p \<longrightarrow> marked (tracks g' ! 0) p) \<and>
         (\<forall>i \<in> set is. alive g ! i \<longrightarrow> marked (tracks g' ! 0) (handlers g ! i))"
  using assms(1,2)
proof (induction "is" arbitrary: g)
  case Nil
  then show ?case by simp
next
  case (Cons i "is")
  from Cons.prems(1) obtain g1 where f: "mark_alive cfg i g = Inr g1"
    and rest: "for_each is (mark_alive cfg) g1 = Inr g'"
    by (auto split: sum.splits)
  have one: "reverting cfg c0 g1 \<and> handlers g1 = handlers g \<and> alive g1 = alive g \<and>
      clock g1 = clock g \<and> (\<forall>p. marked (tracks g ! 0) p \<longrightarrow> marked (tracks g1 ! 0) p) \<and>
      (alive g ! i \<longrightarrow> marked (tracks g1 ! 0) (handlers g ! i))"
  proof (cases "alive g ! i")
    case False
    then show ?thesis
      using f Cons.prems(2) by (simp add: mark_alive_def split: if_splits)
  next
    case True
    then have m: "mark_position cfg i g = Inr g1"
      using f by (simp add: mark_alive_def split: if_splits)
    note rm = reverting_mark [OF Cons.prems(2) m]
    show ?thesis
      using rm(1-4) rm(5) [OF ch] rm(6) by simp
  qed
  from Cons.IH [OF rest] one have two: "reverting cfg c0 g' \<and> handlers g' = handlers g1 \<and>
      alive g' = alive g1 \<and> clock g' = clock g1 \<and>
      (\<forall>p. marked (tracks g1 ! 0) p \<longrightarrow> marked (tracks g' ! 0) p) \<and>
      (\<forall>i \<in> set is. alive g1 ! i \<longrightarrow> marked (tracks g' ! 0) (handlers g1 ! i))"
    by simp
  show ?case
    using one two by auto
qed

lemma unmark_pass:
  assumes "for_each is (unmark_position cfg) g = Inr g'" and "reverting cfg c0 g"
    and ch: "character cfg \<noteq> CHR '' ''"
  shows "reverting cfg c0 g' \<and> handlers g' = handlers g \<and>
         glyphs cfg (tracks g' ! 0)
           \<subseteq> glyphs cfg (tracks g ! 0) - (\<Union>i \<in> set is. set (spot (handlers g ! i)))"
  using assms(1,2)
proof (induction "is" arbitrary: g)
  case Nil
  then show ?case by simp
next
  case (Cons i "is")
  from Cons.prems(1) obtain g1 where f: "unmark_position cfg i g = Inr g1"
    and rest: "for_each is (unmark_position cfg) g1 = Inr g'"
    by (auto split: sum.splits)
  note ru = reverting_unmark [OF Cons.prems(2) f ch]
  from Cons.IH [OF rest ru(1)] have "reverting cfg c0 g'" and "handlers g' = handlers g1"
    and "glyphs cfg (tracks g' ! 0)
           \<subseteq> glyphs cfg (tracks g1 ! 0) - (\<Union>i \<in> set is. set (spot (handlers g1 ! i)))"
    by simp_all
  then show ?case
    using ru(2) ru(6) by auto
qed

text \<open>
  The turn of a living player in a shared race: its own marker is removed, the tick runs
  on the track without it, and the marker is put back at the new position.
\<close>

lemma turn_of_brackets:
  assumes sh: "shared_track cfg" and ch: "character cfg \<noteq> CHR '' ''"
    and sg: "shared_game cfg g" and al: "alive g ! i"
    and t: "turn_of cfg i (g, b) = Inr (g', b')"
  shows "\<exists>ga q s. unmark_position cfg i g = Inr ga \<and>
           cleared cfg (tracks ga ! 0) (handlers g ! i) \<and>
           player_tick cfg (tracks ga ! 0) (handlers g ! i) (clock g) = Inr (q, s) \<and>
           handlers g' ! i = q \<and> marked (tracks g' ! 0) q"
proof -
  let ?p = "handlers g ! i"
  from t have s: "seated g i"
    by (simp add: turn_of_def split: if_splits)
  from t s al sh obtain g1 g2 where
    u: "unmark_position cfg i g = Inr g1" and
    k: "tick_player cfg i (g1, b) = Inr (g2, b')" and
    m: "mark_position cfg i g2 = Inr g'"
    by (auto simp: turn_of_def and_then_def split: sum.splits)
  from unmark_position_shared [OF sg u] obtain c1 where i: "i < length (handlers g)"
    and tu: "track_unmark cfg (tracks g ! 0) (pos_y ?p) (pos_x ?p) (car ?p) = Inr c1"
    and g1: "g1 = g\<lparr>tracks := [c1]\<rparr>"
    by blast
  have sg1: "shared_game cfg g1"
    using sg by (simp add: g1 shared_game_def)
  have i1: "i < length (handlers g1)"
    using i by (simp add: g1)
  from tick_player_shared [OF sg1 i1 k] obtain q s where
    pt: "player_tick cfg (tracks g1 ! 0) (handlers g1 ! i) (clock g1) = Inr (q, s)" and
    g2: "g2 = g1\<lparr>handlers := (handlers g1)[i := q], alive := (alive g1)[i := s]\<rparr>" and
    cq: "course q = 0"
    by blast
  have sg2: "shared_game cfg g2"
    using sg1 cq i1 unfolding g2 shared_game_def
    by (auto simp: list_all_length nth_list_update)
  from mark_position_shared [OF sg2 m] obtain c3 where
    tm: "track_mark cfg (tracks g2 ! 0) (pos_y (handlers g2 ! i)) (pos_x (handlers g2 ! i))
           (car (handlers g2 ! i)) = Inr c3" and g': "g' = g2\<lparr>tracks := [c3]\<rparr>"
    by blast
  have q: "handlers g2 ! i = q"
    using i1 by (simp add: g2)
  have "cleared cfg (tracks g1 ! 0) ?p"
    using cleared_by_unmark [OF tu ch] by (simp add: g1)
  moreover have "player_tick cfg (tracks g1 ! 0) ?p (clock g) = Inr (q, s)"
    using pt by (simp add: g1)
  moreover have "handlers g' ! i = q"
    using q by (simp add: g')
  moreover have "marked (tracks g' ! 0) q"
    using marked_by_mark [OF tm [unfolded q] ch] by (simp add: g')
  ultimately show ?thesis
    using u by blast
qed

subsection \<open>C2: a tick of a shared race reverts its marks\<close>

text \<open>
  Claim C2. In a shared race (one track, to which every player points) whose car
  character is not the blank, take a track that holds no car character and a call of
  \<^verbatim>\<open>game::tick\<close> that returns. Then the track after the call is the track before it: no
  car character remains and no other cell has changed. The call runs in this order: the
  keys; the marks of all living players, after which every cell under the car of every
  living player is an obstacle, before the tick of any player runs; the turns of the
  players; the final unmark of all players. In the turn of a living player its own mark is
  removed first, so that its tick runs on a track with no car character under its car, and
  after the tick every cell under the car at its new position is marked. The track that
  the constructor builds holds no car character when the car character is not a blank, a
  digit, a rock or a kerb (lemma \<open>track_ctor_unmarked\<close>), and the call leaves it so.
\<close>

theorem shared_tick_reverts_marks:
  assumes sh: "shared_track cfg" and ch: "character cfg \<noteq> CHR '' ''"
    and sg: "shared_game cfg gm" and um: "unmarked cfg (tracks gm ! 0)"
    and t: "game_tick cfg pressed gm = Inr (gm', continues)"
  shows "tracks gm' = tracks gm \<and>
         (\<exists>g1 g2 g3.
            for_each pressed (press cfg) (gm\<lparr>clock := clock gm + 1\<rparr>) = Inr g1 \<and>
            for_each (seats cfg) (mark_alive cfg) g1 = Inr g2 \<and>
            (\<forall>i \<in> set (seats cfg). alive g1 ! i \<longrightarrow> marked (tracks g2 ! 0) (handlers g1 ! i)) \<and>
            for_each (seats cfg) (turn_of cfg) (g2, False) = Inr (g3, continues) \<and>
            for_each (seats cfg) (unmark_position cfg) g3 = Inr gm') \<and>
         (\<forall>i g b g' b'. shared_game cfg g \<and> alive g ! i \<and> turn_of cfg i (g, b) = Inr (g', b')
            \<longrightarrow> (\<exists>ga q s. unmark_position cfg i g = Inr ga \<and>
                   cleared cfg (tracks ga ! 0) (handlers g ! i) \<and>
                   player_tick cfg (tracks ga ! 0) (handlers g ! i) (clock g) = Inr (q, s) \<and>
                   handlers g' ! i = q \<and> marked (tracks g' ! 0) q))"
proof (intro conjI)
  let ?c0 = "tracks gm ! 0"
  from t sh obtain g1 g2 g3 where
    p1: "for_each pressed (press cfg) (gm\<lparr>clock := clock gm + 1\<rparr>) = Inr g1" and
    p2: "for_each (seats cfg) (mark_alive cfg) g1 = Inr g2" and
    p3: "for_each (seats cfg) (turn_of cfg) (g2, False) = Inr (g3, continues)" and
    p4: "for_each (seats cfg) (unmark_position cfg) g3 = Inr gm'"
    by (auto simp: game_tick_def and_then_def split: sum.splits)
  have r0: "reverting cfg ?c0 (gm\<lparr>clock := clock gm + 1\<rparr>)"
    using sg um by (simp add: reverting_def shared_game_def erase_unmarked unmarked_no_glyphs spots_def)
  have r1: "reverting cfg ?c0 g1"
    using p1 r0 by (rule for_each_invariant) (rule reverting_press)
  note a2 = mark_alive_pass [OF p2 r1 ch]
  have r3: "reverting cfg ?c0 (fst (g3, continues))"
  proof (rule for_each_invariant [OF p3, where P = "\<lambda>st. reverting cfg ?c0 (fst st)"])
    show "reverting cfg ?c0 (fst (g2, False))"
      using a2 by simp
    fix i st st' assume "reverting cfg ?c0 (fst st)" and "turn_of cfg i st = Inr st'"
    then show "reverting cfg ?c0 (fst st')"
      using reverting_turn [OF sh ch, of ?c0 "fst st" i "snd st" "fst st'" "snd st'"] by simp
  qed
  then have r3': "reverting cfg ?c0 g3"
    by simp
  note a4 = unmark_pass [OF p4 r3' ch]
  have "set (seats cfg) = {..< length (handlers g3)}"
    using r3' by (auto simp: reverting_def shared_game_def seats_def)
  then have "(\<Union>i \<in> set (seats cfg). set (spot (handlers g3 ! i))) = spots g3"
    by (simp add: spots_def)
  moreover have "glyphs cfg (tracks g3 ! 0) \<subseteq> spots g3"
    using r3' by (simp add: reverting_def)
  ultimately have "glyphs cfg (tracks gm' ! 0) = {}"
    using a4 by auto
  then have "erase cfg (tracks gm' ! 0) = tracks gm' ! 0"
    by (intro erase_unmarked no_glyphs_unmarked)
  then have "tracks gm' ! 0 = ?c0"
    using a4 by (simp add: reverting_def)
  moreover have "length (tracks gm') = 1" and "length (tracks gm) = 1"
    using a4 sg by (simp_all add: reverting_def shared_game_def)
  ultimately show "tracks gm' = tracks gm"
    by (intro nth_equalityI) simp_all
  show "\<exists>g1 g2 g3.
            for_each pressed (press cfg) (gm\<lparr>clock := clock gm + 1\<rparr>) = Inr g1 \<and>
            for_each (seats cfg) (mark_alive cfg) g1 = Inr g2 \<and>
            (\<forall>i \<in> set (seats cfg). alive g1 ! i \<longrightarrow> marked (tracks g2 ! 0) (handlers g1 ! i)) \<and>
            for_each (seats cfg) (turn_of cfg) (g2, False) = Inr (g3, continues) \<and>
            for_each (seats cfg) (unmark_position cfg) g3 = Inr gm'"
    using p1 p2 p3 p4 a2 by blast
  show "\<forall>i g b g' b'. shared_game cfg g \<and> alive g ! i \<and> turn_of cfg i (g, b) = Inr (g', b')
            \<longrightarrow> (\<exists>ga q s. unmark_position cfg i g = Inr ga \<and>
                   cleared cfg (tracks ga ! 0) (handlers g ! i) \<and>
                   player_tick cfg (tracks ga ! 0) (handlers g ! i) (clock g) = Inr (q, s) \<and>
                   handlers g' ! i = q \<and> marked (tracks g' ! 0) q)"
    using turn_of_brackets [OF sh ch] by blast
qed



lemmas game_evals =
  game_tick_def press_def seats_def seated_def mark_alive_def mark_position_def
  unmark_position_def turn_of_def tick_player_def player_tick_def may_move_def move_def
  after_move_def track_display_def box_def collision_check_def in_storage_def MAX_CAR_SIZE_def
  parse_input_def and_then_def Let_def signed_divide_int_def
  KEY_UP_def KEY_DOWN_def KEY_LEFT_def KEY_RIGHT_def KEY_ESC_def ACCELERATE_def BRAKE_def
  LEFT_def RIGHT_def upt_rec upto.simps

text \<open>
  Example: the first player steers left. Both cars move up one line, the first one also
  one column to the left, neither crashes, and the track is as before.
\<close>

theorem shared_tick_reverts_marks_witness:
  "shared_track small \<and> character small \<noteq> CHR '' '' \<and> shared_game small two_cars \<and>
   unmarked small (tracks two_cars ! 0) \<and>
   (\<exists>gm'. game_tick small [KEY_LEFT] two_cars = Inr (gm', True) \<and>
          tracks gm' = tracks two_cars)"
proof -
  have sh: "shared_track small" and ch: "character small \<noteq> CHR '' ''"
    and sg: "shared_game small two_cars" and um: "unmarked small (tracks two_cars ! 0)"
    by (simp_all add: small_def reset_def two_cars_def shared_game_def unmarked_def)
  have "\<exists>gm'. game_tick small [KEY_LEFT] two_cars = Inr (gm', True)"
    by (simp add: game_evals track_evals small_def reset_def two_cars_def car2_def
        blank_storage_def)
  then obtain gm' where t: "game_tick small [KEY_LEFT] two_cars = Inr (gm', True)"
    by blast
  from shared_tick_reverts_marks [OF sh ch sg um t] have "tracks gm' = tracks two_cars"
    by (rule conjunct1)
  with t have "\<exists>gm'. game_tick small [KEY_LEFT] two_cars = Inr (gm', True) \<and>
          tracks gm' = tracks two_cars"
    by blast
  with sh ch sg um show ?thesis
    by (intro conjI)
qed


section \<open>Properties of the check for collisions\<close>


lemma rect_same_shape: "rect cfg c \<Longrightarrow> same_shape c c' \<Longrightarrow> rect cfg c'"
  using same_shape_lengths [of c c'] by (auto simp: rect_def list_all_length)

lemma cramped_ctor: "player_handler_ctor race80 8 80 0 0 = Inr cramped"
  by (simp add: player_handler_ctor_def car_of_size_10 and_then_def cramped_def starter_def)
     (simp add: race80_def reset_def signed_divide_int_def)

lemma rect80: "rect race80 c \<Longrightarrow> in_circuit c i j \<longleftrightarrow> 0 \<le> i \<and> i < 500 \<and> 0 \<le> j \<and> j < 80"
  by (simp add: rect_in_circuit race80_def reset_def)

lemma cramped_tick:
  assumes "rect race80 c"
  shows "player_tick race80 c cramped 1 = Inl (OutOfBounds ''track::taken'')"
proof -
  let ?q = "move race80 cramped 1"
  have m: "may_move race80 cramped 1" and s: "speed_base race80 \<noteq> 0"
    by (simp_all add: may_move_def cramped_def starter_def INFINITY_def race80_def reset_def
        signed_divide_int_def)
  have q: "pos_y ?q = 491" "pos_x ?q = 34" "top_line ?q = 491" "win_height ?q = 8" "car ?q = car10"
    by (simp_all add: move_def cramped_def starter_def race80_def reset_def Let_def)
  have d: "track_display race80 c 8 491 = Inr (Track_drawn 491)"
    using rect80 [OF assms] by (simp add: track_display_def list_all_iff race80_def reset_def)
  have "(500, 34) \<in> set (box race80 491 34)"
    by (simp add: set_box race80_def reset_def)
  moreover have "\<not> in_circuit c 500 34"
    using rect80 [OF assms] by simp
  ultimately have "\<not> list_all (\<lambda>p. in_circuit c (fst p) (snd p)) (box race80 491 34)"
    by (force simp: list_all_iff)
  moreover have "list_all (\<lambda>p. in_storage (fst p - 491) (snd p - 34)) (box race80 491 34)"
    by (auto simp: list_all_iff set_box in_storage_def MAX_CAR_SIZE_def race80_def reset_def)
  ultimately have "collisions c car10 491 34 (box race80 491 34) True
      = Inl (OutOfBounds ''track::taken'')"
    by (rule collisions_leaves_track)
  then show ?thesis
    using m s d by (simp add: player_tick_def after_move_def q and_then_def)
qed

lemma fits_start: "rect race80 c \<Longrightarrow> fits c (footprint 490 34 dots10)"
  by (simp add: fits_def footprint_def dots10_def rect80)

lemma first_tick:
  assumes "rect race80 c"
  shows "game_tick race80 [] \<lparr>clock = 0, handlers = [cramped], alive = [True], tracks = [c]\<rparr>
         = Inl (OutOfBounds ''track::taken'')"
proof -
  have p: "pos_y cramped = 490" "pos_x cramped = 34" "car cramped = car10" "course cramped = 0"
    by (simp_all add: cramped_def starter_def)
  have d: "dots car10 = dots10"
    by (simp add: car10_def)
  from track_mark_returns [of c 490 34 car10 race80] fits_start [OF assms] obtain c1 where
    m: "track_mark race80 c 490 34 car10 = Inr c1"
    by (auto simp: d)
  have r1: "rect race80 c1"
    using rect_same_shape [OF assms track_mark_spec(1) [OF m]] .
  from track_unmark_returns [of c1 490 34 car10 race80] fits_start [OF r1] obtain c2 where
    u: "track_unmark race80 c1 490 34 car10 = Inr c2"
    by (auto simp: d)
  have r2: "rect race80 c2"
    using rect_same_shape [OF r1 track_unmark_spec(1) [OF u]] .
  have sh: "shared_track race80" and n: "seats race80 = [0]"
    by (simp_all add: race80_def reset_def seats_def)
  show ?thesis
    by (simp add: game_tick_def sh n mark_alive_def seated_def mark_position_def p m
        turn_of_def unmark_position_def u tick_player_def cramped_tick [OF r2] and_then_def)
qed

subsection \<open>C10: the cells that the check for collisions reads\<close>

text \<open>
  Claim C10 says that every call \<^verbatim>\<open>taken(i, j)\<close> of a tick is inside the track. It is
  not: \<^verbatim>\<open>tick\<close> clamps \<^verbatim>\<open>y\<close> between \<^verbatim>\<open>top_line\<close> and
  \<^verbatim>\<open>top_line + screen_height - car_size\<close>, and nothing compares the size of the car
  with the height of the terminal. With the default settings on a terminal of 8 lines and
  80 columns, for every sequence of random numbers, the constructor of the game returns,
  and the first call of \<^verbatim>\<open>game::tick\<close> puts the car of size 10 at line 491 and asks
  \<^verbatim>\<open>taken\<close> for the lines 491 to 500 of a track that has the lines 0 to 499.
\<close>

theorem first_tick_leaves_track:
  "\<exists>cfg gm. game_ctor reset 8 80 g = Inr (cfg, gm) \<and>
     game_tick cfg [] gm = Inl (OutOfBounds ''track::taken'')"
proof -
  have "0 \<le> race_length race80" and "2 \<le> minimal_width race80"
    and "minimal_width race80 + 4 \<le> race_width race80"
    and "race_width race80 * 3 + minimal_width race80 \<le> INT_MAX"
    by (simp_all add: race80_def reset_def INT_MAX_def)
  from generate_steps [OF this, of g 0] obtain s where
    s: "generate race80 g 0 = Inr s" and r: "rect race80 (circuit s)"
    by blast
  have sh: "shared_track race80" and n: "seats race80 = [0]"
    by (simp_all add: race80_def reset_def seats_def)
  have "game_ctor reset 8 80 g =
      Inr (race80, \<lparr>clock = 0, handlers = [cramped], alive = [True], tracks = [circuit s]\<rparr>)"
    by (simp add: game_ctor_def adjust_race80 sh n track_ctor_def s seat_player_def
        MAX_PLAYERS_def cramped_ctor and_then_def)
  then show ?thesis
    using first_tick [OF r] by blast
qed


end
